theory Spec2Isabelle
  imports Complex_Main "HOL-Library.AList" "HOL-Library.Sublist"
begin

section \<open>Python values and the operations the script applies to them\<close>

text \<open>
  The script handles whatever \<^verbatim>\<open>r.json()\<close> decodes, so the model works on decoded JSON
  values. \<open>JNull\<close> is Python's \<^verbatim>\<open>None\<close>: the absence value of \<^verbatim>\<open>safe_get\<close> and a JSON
  \<^verbatim>\<open>null\<close> are the same value, as in Python. An object is the list of its items in
  insertion order (its keys are distinct; lookups go through \<open>map_of\<close>). Numbers with a
  fractional part are kept by value (\<open>JReal\<close>); NaN and the infinities are outside the
  model. Text is a \<open>string\<close>, exact for ASCII.
\<close>

datatype json =
    JNull
  | JBool bool
  | JInt int
  | JReal rat
  | JStr string
  | JArr "json list"
  | JObj "(string \<times> json) list"

datatype py_error = KeyError | TypeError | AttributeError

text \<open>Truth value testing (\<^verbatim>\<open>if data\<close>, \<^verbatim>\<open>not data\<close>).\<close>

fun truthy :: "json \<Rightarrow> bool" where
  "truthy JNull = False"
| "truthy (JBool b) = b"
| "truthy (JInt i) = (i \<noteq> 0)"
| "truthy (JReal r) = (r \<noteq> 0)"
| "truthy (JStr s) = (s \<noteq> [])"
| "truthy (JArr xs) = (xs \<noteq> [])"
| "truthy (JObj kvs) = (kvs \<noteq> [])"

text \<open>\<^verbatim>\<open>k in x\<close> for a text key \<open>k\<close>: a key test on a dict, an element test on a list, a
  substring test on text, a TypeError on anything else.\<close>

fun py_contains :: "string \<Rightarrow> json \<Rightarrow> py_error + bool" where
  "py_contains k (JObj kvs) = Inr (k \<in> set (map fst kvs))"
| "py_contains k (JArr xs) = Inr (JStr k \<in> set xs)"
| "py_contains k (JStr s) = Inr (sublist k s)"
| "py_contains k _ = Inl TypeError"

text \<open>\<^verbatim>\<open>x[k]\<close> for a text key \<open>k\<close>: only a dict can be indexed by text.\<close>

fun py_getitem :: "json \<Rightarrow> string \<Rightarrow> py_error + json" where
  "py_getitem (JObj kvs) k = (case map_of kvs k of None \<Rightarrow> Inl KeyError | Some v \<Rightarrow> Inr v)"
| "py_getitem _ k = Inl TypeError"

text \<open>\<^verbatim>\<open>x.get(k, d)\<close>: only a dict has the method.\<close>

fun py_get :: "json \<Rightarrow> string \<Rightarrow> json \<Rightarrow> py_error + json" where
  "py_get (JObj kvs) k d = (case map_of kvs k of None \<Rightarrow> Inr d | Some v \<Rightarrow> Inr v)"
| "py_get _ k d = Inl AttributeError"

text \<open>Iteration (\<^verbatim>\<open>for x in v\<close>, \<^verbatim>\<open>list.extend(v)\<close>): a list gives its elements, a dict its
  keys, text its characters; nothing else is iterable.\<close>

fun py_iter :: "json \<Rightarrow> py_error + json list" where
  "py_iter (JArr xs) = Inr xs"
| "py_iter (JObj kvs) = Inr (map (\<lambda>kv. JStr (fst kv)) kvs)"
| "py_iter (JStr s) = Inr (map (\<lambda>c. JStr [c]) s)"
| "py_iter _ = Inl TypeError"

text \<open>The slice \<^verbatim>\<open>v[:5]\<close>: lists and text can be sliced; a dict cannot (TypeError before
  Python 3.12, KeyError from then on: the model says TypeError), nor can a scalar.\<close>

fun py_slice5 :: "json \<Rightarrow> py_error + json" where
  "py_slice5 (JArr xs) = Inr (JArr (take 5 xs))"
| "py_slice5 (JStr s) = Inr (JStr (take 5 s))"
| "py_slice5 _ = Inl TypeError"

text \<open>\<^verbatim>\<open>sep.join(xs)\<close>: every item must be text, otherwise TypeError.\<close>

fun join_strs :: "string \<Rightarrow> string list \<Rightarrow> string" where
  "join_strs sep [] = []"
| "join_strs sep [x] = x"
| "join_strs sep (x # y # ys) = x @ sep @ join_strs sep (y # ys)"

fun py_strs :: "json list \<Rightarrow> py_error + string list" where
  "py_strs [] = Inr []"
| "py_strs (JStr s # xs) = (case py_strs xs of Inl e \<Rightarrow> Inl e | Inr ss \<Rightarrow> Inr (s # ss))"
| "py_strs (_ # xs) = Inl TypeError"

definition py_join :: "string \<Rightarrow> json list \<Rightarrow> py_error + string" where
  "py_join sep xs = (case py_strs xs of Inl e \<Rightarrow> Inl e | Inr ss \<Rightarrow> Inr (join_strs sep ss))"

text \<open>\<^verbatim>\<open>a + v\<close> for text \<open>a\<close>: \<open>v\<close> must be text.\<close>

fun py_concat :: "string \<Rightarrow> json \<Rightarrow> py_error + string" where
  "py_concat a (JStr s) = Inr (a @ s)"
| "py_concat a _ = Inl TypeError"

text \<open>
  Set membership and dict keys go by hash and equality: \<^verbatim>\<open>1\<close>, \<^verbatim>\<open>1.0\<close> and \<^verbatim>\<open>True\<close> are
  one key, lists and dicts are unhashable (TypeError).
\<close>

datatype key = KNone | KNum rat | KStr string

fun hashable :: "json \<Rightarrow> py_error + key" where
  "hashable JNull = Inr KNone"
| "hashable (JBool b) = Inr (KNum (if b then 1 else 0))"
| "hashable (JInt i) = Inr (KNum (of_int i))"
| "hashable (JReal r) = Inr (KNum r)"
| "hashable (JStr s) = Inr (KStr s)"
| "hashable (JArr xs) = Inl TypeError"
| "hashable (JObj kvs) = Inl TypeError"

section \<open>Configuration\<close>

definition LANG :: string where "LANG = ''en-US''"
definition BASE_URL :: string where "BASE_URL = ''https://api.themoviedb.org/3''"
definition IMAGE_BASE :: string where "IMAGE_BASE = ''https://image.tmdb.org/t/p/w500''"
definition PAGES_PER_ENDPOINT :: int where "PAGES_PER_ENDPOINT = 30"
definition SLEEP_BETWEEN_REQUESTS :: rat where "SLEEP_BETWEEN_REQUESTS = 2 / 10"
definition SAVE_FILE :: string where "SAVE_FILE = ''tmdb_movies_full.csv''"
definition ENDPOINTS :: "string list" where
  "ENDPOINTS = [''/movie/popular'', ''/movie/top_rated'', ''/movie/upcoming'', ''/movie/now_playing'']"

section \<open>The world: session, requests, responses and the trace of effects\<close>

text \<open>
  Formatted text (an f-string, a URL) is a list of pieces: literal text, and \<open>Fmt v\<close> for
  the text \<^verbatim>\<open>str(v)\<close> of a value, which the model keeps symbolic.
\<close>

datatype piece = Lit string | Fmt json

record session =
  headers :: "(string \<times> string) list"
  params :: "(string \<times> string) list"

definition create_session :: "string \<Rightarrow> session" where
  "create_session api_key =
     \<lparr> headers = [(''accept'', ''application/json''), (''Authorization'', ''Bearer '' @ api_key)],
       params = [(''language'', ''en'')] \<rparr>"

text \<open>
  What one \<^verbatim>\<open>session.get\<close> does: it raises (connection error, the timeout of 15 seconds),
  or it returns a response with a status code and a body; the body is \<open>None\<close> when
  \<^verbatim>\<open>r.json()\<close> raises on it.
\<close>

datatype outcome = Raised | Response int "json option"

record row =
  row_id :: json
  title :: json
  overview :: json
  release_date :: json
  vote_average :: json
  genres :: string
  top_cast :: string
  director :: json
  poster_url :: string

text \<open>
  Every effect of the script is an event appended to a trace: a GET (with the session,
  the URL, the parameters and what came back), a sleep (seconds), a printed line, the
  write of the table. The remote service is a function of everything that happened so
  far and of the request, so its answers may change from one attempt to the next.
\<close>

datatype event =
    Get session "piece list" json outcome
  | Sleep rat
  | Print "piece list"
  | WriteCsv string "row list"

type_synonym trace = "event list"
type_synonym server = "trace \<Rightarrow> session \<Rightarrow> piece list \<Rightarrow> json \<Rightarrow> outcome"

section \<open>The retrying fetch\<close>

text \<open>
  \<open>attempts n\<close> is the rest of the loop \<^verbatim>\<open>for _ in range(3)\<close> with \<open>n\<close> rounds to go. The
  bare \<^verbatim>\<open>except\<close> catches whatever \<^verbatim>\<open>session.get\<close> or \<^verbatim>\<open>r.json()\<close> raises, so the function
  has no error result.
\<close>

fun attempts :: "nat \<Rightarrow> server \<Rightarrow> session \<Rightarrow> piece list \<Rightarrow> json \<Rightarrow> trace \<Rightarrow> json \<times> trace" where
  "attempts 0 srv s url ps tr = (JNull, tr)"
| "attempts (Suc n) srv s url ps tr =
     (let r = srv tr s url ps; tr1 = tr @ [Get s url ps r] in
      case r of
        Raised \<Rightarrow> attempts n srv s url ps (tr1 @ [Sleep 1])
      | Response code body \<Rightarrow>
          if code = 200 then
            (case body of
               Some v \<Rightarrow> (v, tr1)
             | None \<Rightarrow> attempts n srv s url ps (tr1 @ [Sleep 1]))
          else attempts n srv s url ps (tr1 @ [Sleep 1]))"

definition safe_get :: "server \<Rightarrow> session \<Rightarrow> piece list \<Rightarrow> json \<Rightarrow> trace \<Rightarrow> json \<times> trace" where
  "safe_get srv s url ps tr = attempts 3 srv s url ps tr"

section \<open>Genre lookup\<close>

type_synonym genre_map = "(key \<times> json) list"

text \<open>The body of \<^verbatim>\<open>for g in data["genres"]\<close>: the right-hand side \<^verbatim>\<open>g["name"]\<close> is evaluated
  before the target \<^verbatim>\<open>genre_map[g["id"]]\<close>.\<close>

fun fill_genres :: "json list \<Rightarrow> genre_map \<Rightarrow> py_error + genre_map" where
  "fill_genres [] gm = Inr gm"
| "fill_genres (g # gs) gm =
     (case py_getitem g ''name'' of
        Inl e \<Rightarrow> Inl e
      | Inr name \<Rightarrow>
          (case py_getitem g ''id'' of
             Inl e \<Rightarrow> Inl e
           | Inr i \<Rightarrow>
               (case hashable i of
                  Inl e \<Rightarrow> Inl e
                | Inr k \<Rightarrow> fill_genres gs (AList.update k name gm))))"

definition get_genres :: "server \<Rightarrow> session \<Rightarrow> trace \<Rightarrow> (py_error + genre_map) \<times> trace" where
  "get_genres srv s tr =
     (let (data, tr1) = safe_get srv s [Lit (BASE_URL @ ''/genre/movie/list'')] JNull tr in
      if \<not> truthy data then (Inr [], tr1)
      else
        (case py_contains ''genres'' data of
           Inl e \<Rightarrow> (Inl e, tr1)
         | Inr False \<Rightarrow> (Inr [], tr1)
         | Inr True \<Rightarrow>
             (case py_getitem data ''genres'' of
                Inl e \<Rightarrow> (Inl e, tr1)
              | Inr gs \<Rightarrow>
                  (case py_iter gs of
                     Inl e \<Rightarrow> (Inl e, tr1)
                   | Inr xs \<Rightarrow> (fill_genres xs [], tr1)))))"

section \<open>Listing paginator\<close>

definition page_params :: "int \<Rightarrow> json" where
  "page_params page = JObj [(''page'', JInt page)]"

definition page_line :: "string \<Rightarrow> int \<Rightarrow> nat \<Rightarrow> piece list" where
  "page_line endpoint page n =
     [Lit ([CHR 0xF0, CHR 0x9F, CHR 0x93, CHR 0x84] @ '' ''), Lit endpoint, Lit '' page '',
      Fmt (JInt page), Lit '' ('', Fmt (JInt (int n)), Lit '' film)'']"

text \<open>\<open>pages_loop\<close> is the loop \<^verbatim>\<open>for page in range(1, pages + 1)\<close> over the pages still to
  come; leaving it by \<^verbatim>\<open>break\<close> returns the accumulator.\<close>

fun pages_loop ::
  "server \<Rightarrow> session \<Rightarrow> string \<Rightarrow> int list \<Rightarrow> json list \<Rightarrow> trace \<Rightarrow> (py_error + json list) \<times> trace" where
  "pages_loop srv s endpoint [] all_movies tr = (Inr all_movies, tr)"
| "pages_loop srv s endpoint (page # rest) all_movies tr =
     (let (data, tr1) = safe_get srv s [Lit (BASE_URL @ endpoint)] (page_params page) tr in
      if \<not> truthy data then (Inr all_movies, tr1)
      else
        (case py_contains ''results'' data of
           Inl e \<Rightarrow> (Inl e, tr1)
         | Inr False \<Rightarrow> (Inr all_movies, tr1)
         | Inr True \<Rightarrow>
             (case py_getitem data ''results'' of
                Inl e \<Rightarrow> (Inl e, tr1)
              | Inr res \<Rightarrow>
                  (case py_iter res of
                     Inl e \<Rightarrow> (Inl e, tr1)
                   | Inr xs \<Rightarrow>
                       pages_loop srv s endpoint rest (all_movies @ xs)
                         (tr1 @ [Print (page_line endpoint page (length xs)),
                                 Sleep SLEEP_BETWEEN_REQUESTS])))))"

definition get_movies_from_endpoint ::
  "server \<Rightarrow> session \<Rightarrow> string \<Rightarrow> int \<Rightarrow> trace \<Rightarrow> (py_error + json list) \<times> trace" where
  "get_movies_from_endpoint srv s endpoint pages tr = pages_loop srv s endpoint [1..pages] [] tr"

section \<open>Credit enricher\<close>

text \<open>\<^verbatim>\<open>[c["name"] for c in xs]\<close>\<close>

fun names_of :: "json list \<Rightarrow> py_error + json list" where
  "names_of [] = Inr []"
| "names_of (c # cs) =
     (case py_getitem c ''name'' of
        Inl e \<Rightarrow> Inl e
      | Inr n \<Rightarrow> (case names_of cs of Inl e \<Rightarrow> Inl e | Inr ns \<Rightarrow> Inr (n # ns)))"

text \<open>\<^verbatim>\<open>[c["name"] for c in xs if c.get("job") == "Director"]\<close>\<close>

fun director_names :: "json list \<Rightarrow> py_error + json list" where
  "director_names [] = Inr []"
| "director_names (c # cs) =
     (case py_get c ''job'' JNull of
        Inl e \<Rightarrow> Inl e
      | Inr j \<Rightarrow>
          if j = JStr ''Director'' then
            (case py_getitem c ''name'' of
               Inl e \<Rightarrow> Inl e
             | Inr n \<Rightarrow> (case director_names cs of Inl e \<Rightarrow> Inl e | Inr ns \<Rightarrow> Inr (n # ns)))
          else director_names cs)"

definition credits_url :: "json \<Rightarrow> piece list" where
  "credits_url movie_id = [Lit (BASE_URL @ ''/movie/''), Fmt movie_id, Lit ''/credits'']"

definition extract_credits :: "json \<Rightarrow> py_error + string \<times> json" where
  "extract_credits data =
     (case py_get data ''cast'' (JArr []) of
        Inl e \<Rightarrow> Inl e
      | Inr cast \<Rightarrow>
     (case py_slice5 cast of
        Inl e \<Rightarrow> Inl e
      | Inr cast5 \<Rightarrow>
     (case py_iter cast5 of
        Inl e \<Rightarrow> Inl e
      | Inr cs \<Rightarrow>
     (case names_of cs of
        Inl e \<Rightarrow> Inl e
      | Inr cast_names \<Rightarrow>
     (case py_get data ''crew'' (JArr []) of
        Inl e \<Rightarrow> Inl e
      | Inr crew \<Rightarrow>
     (case py_iter crew of
        Inl e \<Rightarrow> Inl e
      | Inr ws \<Rightarrow>
     (case director_names ws of
        Inl e \<Rightarrow> Inl e
      | Inr directors \<Rightarrow>
     (case py_join '', '' cast_names of
        Inl e \<Rightarrow> Inl e
      | Inr joined \<Rightarrow>
          Inr (joined, case directors of [] \<Rightarrow> JStr [] | d # _ \<Rightarrow> d)))))))))"

definition get_movie_credits ::
  "server \<Rightarrow> session \<Rightarrow> json \<Rightarrow> trace \<Rightarrow> (py_error + string \<times> json) \<times> trace" where
  "get_movie_credits srv s movie_id tr =
     (let (data, tr1) = safe_get srv s (credits_url movie_id) JNull tr in
      if \<not> truthy data then (Inr ([], JStr []), tr1)
      else (extract_credits data, tr1))"

section \<open>Aggregation and flattening\<close>

text \<open>The inner loop \<^verbatim>\<open>for m in movies\<close> of \<^verbatim>\<open>main\<close>: \<^verbatim>\<open>m["id"]\<close> is indexed directly and
  looked up in the set \<^verbatim>\<open>seen\<close>, which hashes it.\<close>

fun dedup_movies :: "json list \<Rightarrow> json list \<Rightarrow> key set \<Rightarrow> py_error + json list \<times> key set" where
  "dedup_movies [] all_movies seen = Inr (all_movies, seen)"
| "dedup_movies (m # ms) all_movies seen =
     (case py_getitem m ''id'' of
        Inl e \<Rightarrow> Inl e
      | Inr i \<Rightarrow>
          (case hashable i of
             Inl e \<Rightarrow> Inl e
           | Inr k \<Rightarrow>
               if k \<notin> seen then dedup_movies ms (all_movies @ [m]) (insert k seen)
               else dedup_movies ms all_movies seen))"

definition endpoint_line :: "string \<Rightarrow> piece list" where
  "endpoint_line endpoint =
     [Lit ([CHR 0xF0, CHR 0x9F, CHR 0x93, CHR 0xA5] @ '' Get data from ''), Lit endpoint, Lit '' ...'']"

text \<open>The outer loop \<^verbatim>\<open>for endpoint in ENDPOINTS\<close> of \<^verbatim>\<open>main\<close>.\<close>

fun collect_movies ::
  "server \<Rightarrow> session \<Rightarrow> string list \<Rightarrow> json list \<Rightarrow> key set \<Rightarrow> trace
     \<Rightarrow> (py_error + json list \<times> key set) \<times> trace" where
  "collect_movies srv s [] all_movies seen tr = (Inr (all_movies, seen), tr)"
| "collect_movies srv s (endpoint # rest) all_movies seen tr =
     (case get_movies_from_endpoint srv s endpoint PAGES_PER_ENDPOINT
             (tr @ [Print (endpoint_line endpoint)]) of
        (Inl e, tr1) \<Rightarrow> (Inl e, tr1)
      | (Inr movies, tr1) \<Rightarrow>
          (case dedup_movies movies all_movies seen of
             Inl e \<Rightarrow> (Inl e, tr1)
           | Inr (all_movies1, seen1) \<Rightarrow> collect_movies srv s rest all_movies1 seen1 tr1))"

text \<open>\<^verbatim>\<open>[genre_map.get(g, g) for g in ids]\<close>: the lookup hashes \<open>g\<close>; an identifier the
  map does not know stays as it is.\<close>

fun lookup_genres :: "genre_map \<Rightarrow> json list \<Rightarrow> py_error + json list" where
  "lookup_genres gm [] = Inr []"
| "lookup_genres gm (g # gs) =
     (case hashable g of
        Inl e \<Rightarrow> Inl e
      | Inr k \<Rightarrow>
          (case lookup_genres gm gs of
             Inl e \<Rightarrow> Inl e
           | Inr vs \<Rightarrow> Inr ((case map_of gm k of None \<Rightarrow> g | Some v \<Rightarrow> v) # vs)))"

definition genres_of :: "genre_map \<Rightarrow> json \<Rightarrow> py_error + json list" where
  "genres_of gm m =
     (case py_get m ''genre_ids'' (JArr []) of
        Inl e \<Rightarrow> Inl e
      | Inr ids \<Rightarrow> (case py_iter ids of Inl e \<Rightarrow> Inl e | Inr gs \<Rightarrow> lookup_genres gm gs))"

text \<open>\<^verbatim>\<open>IMAGE_BASE + m["poster_path"] if m.get("poster_path") else ""\<close>\<close>

definition poster_of :: "json \<Rightarrow> py_error + string" where
  "poster_of m =
     (case py_get m ''poster_path'' JNull of
        Inl e \<Rightarrow> Inl e
      | Inr p \<Rightarrow>
          if truthy p then
            (case py_getitem m ''poster_path'' of Inl e \<Rightarrow> Inl e | Inr v \<Rightarrow> py_concat IMAGE_BASE v)
          else Inr [])"

definition progress_line :: "nat \<Rightarrow> nat \<Rightarrow> json \<Rightarrow> piece list" where
  "progress_line i n_all t =
     [Lit ([CHR 0xF0, CHR 0x9F, CHR 0x8E, CHR 0x9E, CHR 0xEF, CHR 0xB8, CHR 0x8F] @ '' ''),
      Fmt (JInt (int i)), Lit ''/'', Fmt (JInt (int n_all)), Lit '': '', Fmt t]"

text \<open>One round of \<^verbatim>\<open>for i, m in enumerate(all_movies, 1)\<close>, up to \<^verbatim>\<open>rows.append\<close>: the
  fields are read, the credits are fetched, and only then are the genres joined, inside
  the dict display.\<close>

definition build_row ::
  "server \<Rightarrow> session \<Rightarrow> genre_map \<Rightarrow> json \<Rightarrow> trace \<Rightarrow> (py_error + row) \<times> trace" where
  "build_row srv s gm m tr =
     (case py_get m ''id'' JNull of Inl e \<Rightarrow> (Inl e, tr) | Inr mid \<Rightarrow>
     (case py_get m ''title'' JNull of Inl e \<Rightarrow> (Inl e, tr) | Inr t \<Rightarrow>
     (case py_get m ''overview'' JNull of Inl e \<Rightarrow> (Inl e, tr) | Inr ov \<Rightarrow>
     (case py_get m ''release_date'' JNull of Inl e \<Rightarrow> (Inl e, tr) | Inr rd \<Rightarrow>
     (case py_get m ''vote_average'' JNull of Inl e \<Rightarrow> (Inl e, tr) | Inr va \<Rightarrow>
     (case genres_of gm m of Inl e \<Rightarrow> (Inl e, tr) | Inr gs \<Rightarrow>
     (case poster_of m of Inl e \<Rightarrow> (Inl e, tr) | Inr poster \<Rightarrow>
     (case get_movie_credits srv s mid tr of
        (Inl e, tr1) \<Rightarrow> (Inl e, tr1)
      | (Inr (cast, dir), tr1) \<Rightarrow>
          (case py_join '', '' gs of
             Inl e \<Rightarrow> (Inl e, tr1)
           | Inr joined \<Rightarrow>
               (Inr \<lparr> row_id = mid, title = t, overview = ov, release_date = rd,
                      vote_average = va, genres = joined, top_cast = cast, director = dir,
                      poster_url = poster \<rparr>, tr1))))))))))"

fun build_rows ::
  "server \<Rightarrow> session \<Rightarrow> genre_map \<Rightarrow> nat \<Rightarrow> nat \<Rightarrow> json list \<Rightarrow> row list \<Rightarrow> trace
     \<Rightarrow> (py_error + row list) \<times> trace" where
  "build_rows srv s gm n_all i [] rows tr = (Inr rows, tr)"
| "build_rows srv s gm n_all i (m # ms) rows tr =
     (case build_row srv s gm m tr of
        (Inl e, tr1) \<Rightarrow> (Inl e, tr1)
      | (Inr r, tr1) \<Rightarrow>
          build_rows srv s gm n_all (Suc i) ms (rows @ [r])
            (tr1 @ [Print (progress_line i n_all (title r)), Sleep SLEEP_BETWEEN_REQUESTS]))"

section \<open>The run\<close>

definition key_error_line :: "piece list" where
  "key_error_line =
     [Lit ([CHR 0xE2, CHR 0x9D, CHR 0x8C] @ '' Please set API_KEY or edit directly in code.'')]"

definition genres_start_line :: "piece list" where
  "genres_start_line =
     [Lit ([CHR 0xF0, CHR 0x9F, CHR 0x8E, CHR 0xAC] @ '' Getting category list...'')]"

definition genres_done_line :: "nat \<Rightarrow> piece list" where
  "genres_done_line n =
     [Lit ([CHR 0xE2, CHR 0x9C, CHR 0x85] @ '' Fetched ''), Fmt (JInt (int n)),
      Lit ('' genres.'' @ [CHR 0x0A])]"

definition total_line :: "nat \<Rightarrow> piece list" where
  "total_line n = [Lit ([CHR 0x0A] @ ''Total number of films obtained: ''), Fmt (JInt (int n))]"

definition saved_line :: "nat \<Rightarrow> piece list" where
  "saved_line n =
     [Lit ([CHR 0x0A, CHR 0xE2, CHR 0x9C, CHR 0x85] @ '' Data saved to ''), Lit SAVE_FILE,
      Lit '' ('', Fmt (JInt (int n)), Lit '' film).'']"

text \<open>
  \<open>API_KEY\<close> is what \<^verbatim>\<open>os.getenv("API_KEY")\<close> gave: \<open>None\<close> or text. \<^verbatim>\<open>main\<close> returns
  nothing; its result here says whether it ended normally or by an exception, and the
  trace holds everything it did. The write of the table is one event (what
  \<^verbatim>\<open>DataFrame.to_csv\<close> does to the bytes, and its failures, are outside the model).
\<close>

definition main :: "string option \<Rightarrow> server \<Rightarrow> trace \<Rightarrow> (py_error + unit) \<times> trace" where
  "main API_KEY srv tr =
     (case API_KEY of
        None \<Rightarrow> (Inr (), tr @ [Print key_error_line])
      | Some k \<Rightarrow>
          if k = [] \<or> k = ''YOUR_API_KEY_HERE'' then (Inr (), tr @ [Print key_error_line])
          else
            (let s = create_session k in
             case get_genres srv s (tr @ [Print genres_start_line]) of
               (Inl e, tr1) \<Rightarrow> (Inl e, tr1)
             | (Inr genre_map, tr1) \<Rightarrow>
                 (case collect_movies srv s ENDPOINTS [] {}
                         (tr1 @ [Print (genres_done_line (length genre_map))]) of
                    (Inl e, tr2) \<Rightarrow> (Inl e, tr2)
                  | (Inr (all_movies, seen), tr2) \<Rightarrow>
                      (case build_rows srv s genre_map (length all_movies) 1 all_movies []
                              (tr2 @ [Print (total_line (length all_movies))]) of
                         (Inl e, tr3) \<Rightarrow> (Inl e, tr3)
                       | (Inr rows, tr3) \<Rightarrow>
                           (Inr (), tr3 @ [WriteCsv SAVE_FILE rows,
                                           Print (saved_line (length rows))])))))"

section \<open>Reading a trace\<close>

text \<open>
  The properties below are stated on the events a call appends to the trace. A GET
  succeeds, in the sense of \<^verbatim>\<open>safe_get\<close>, when nothing was raised, the status is 200 and
  the body decodes; \<open>payload\<close> is then the decoded body.
\<close>

definition succeeded :: "outcome \<Rightarrow> bool" where
  "succeeded r = (case r of Response code (Some v) \<Rightarrow> code = 200 | _ \<Rightarrow> False)"

definition payload :: "outcome \<Rightarrow> json" where
  "payload r = (case r of Response code (Some v) \<Rightarrow> v | _ \<Rightarrow> JNull)"

type_synonym request = "session \<times> piece list \<times> json"

text \<open>The requests sent, in order; the payloads of the successful GETs of one request;
  the number of failed GETs of one request.\<close>

fun requests :: "event list \<Rightarrow> request list" where
  "requests [] = []"
| "requests (Get s u p r # evs) = (s, u, p) # requests evs"
| "requests (_ # evs) = requests evs"

fun answers :: "request \<Rightarrow> event list \<Rightarrow> json list" where
  "answers rq [] = []"
| "answers rq (Get s u p r # evs) =
     (if rq = (s, u, p) \<and> succeeded r then payload r # answers rq evs else answers rq evs)"
| "answers rq (_ # evs) = answers rq evs"

fun failures :: "request \<Rightarrow> event list \<Rightarrow> nat" where
  "failures rq [] = 0"
| "failures rq (Get s u p r # evs) =
     (if rq = (s, u, p) \<and> \<not> succeeded r then Suc (failures rq evs) else failures rq evs)"
| "failures rq (_ # evs) = failures rq evs"

text \<open>What the retrying fetch of a request gave back, read off the trace: the payload of
  its successful GET, or nothing (\<open>JNull\<close>) after three failed ones. \<open>None\<close>: the trace holds
  no completed fetch of that request.\<close>

definition fetched :: "request \<Rightarrow> event list \<Rightarrow> json option" where
  "fetched rq evs =
     (case answers rq evs of
        v # _ \<Rightarrow> Some v
      | [] \<Rightarrow> if failures rq evs = 3 then Some JNull else None)"

text \<open>The records a payload lists under \<^verbatim>\<open>results\<close>, and the records listed by the successful
  GETs to the given URLs, in order.\<close>

definition records_of :: "json \<Rightarrow> json list" where
  "records_of d =
     (case py_getitem d ''results'' of
        Inl e \<Rightarrow> []
      | Inr res \<Rightarrow> (case py_iter res of Inl e \<Rightarrow> [] | Inr xs \<Rightarrow> xs))"

fun listed :: "piece list list \<Rightarrow> event list \<Rightarrow> json list" where
  "listed urls [] = []"
| "listed urls (Get s u p r # evs) =
     (if u \<in> set urls \<and> succeeded r then records_of (payload r) else []) @ listed urls evs"
| "listed urls (_ # evs) = listed urls evs"

text \<open>The tables written, in order.\<close>

fun writes :: "event list \<Rightarrow> (string \<times> row list) list" where
  "writes [] = []"
| "writes (WriteCsv f rows # evs) = (f, rows) # writes evs"
| "writes (_ # evs) = writes evs"

text \<open>The request the paginator sends for a page, and the payloads the specification calls
  absent or without a result list.\<close>

definition page_request :: "session \<Rightarrow> string \<Rightarrow> int \<Rightarrow> request" where
  "page_request s endpoint page = (s, [Lit (BASE_URL @ endpoint)], page_params page)"

definition no_results :: "json \<Rightarrow> bool" where
  "no_results d = (case d of JNull \<Rightarrow> True | JObj kvs \<Rightarrow> ''results'' \<notin> set (map fst kvs) | _ \<Rightarrow> False)"

text \<open>The three ways one round of the paginator's loop can go, as the code decides it.\<close>

datatype page_result = Stop | Fail py_error | Items "json list"

definition classify :: "json \<Rightarrow> page_result" where
  "classify data =
     (if \<not> truthy data then Stop
      else
        (case py_contains ''results'' data of
           Inl e \<Rightarrow> Fail e
         | Inr False \<Rightarrow> Stop
         | Inr True \<Rightarrow>
             (case py_getitem data ''results'' of
                Inl e \<Rightarrow> Fail e
              | Inr res \<Rightarrow> (case py_iter res of Inl e \<Rightarrow> Fail e | Inr xs \<Rightarrow> Items xs))))"

section \<open>Records, rows and identifiers\<close>

text \<open>
  A listing record as the data model has it: an object with an \<^verbatim>\<open>id\<close> that is a scalar (the
  model says an integer). \<open>movie_key\<close> is the identifier of a record as the set \<^verbatim>\<open>seen\<close>
  compares it, \<open>row_key\<close> the same for the identifier of an output row.
\<close>

fun scalar :: "json \<Rightarrow> bool" where
  "scalar (JArr xs) = False"
| "scalar (JObj kvs) = False"
| "scalar _ = True"

definition has_id :: "json \<Rightarrow> bool" where
  "has_id m =
     (case m of
        JObj kvs \<Rightarrow> (case map_of kvs ''id'' of Some i \<Rightarrow> scalar i | None \<Rightarrow> False)
      | _ \<Rightarrow> False)"

definition movie_key :: "json \<Rightarrow> py_error + key" where
  "movie_key m = (case py_getitem m ''id'' of Inl e \<Rightarrow> Inl e | Inr i \<Rightarrow> hashable i)"

definition row_key :: "row \<Rightarrow> py_error + key" where
  "row_key r = hashable (row_id r)"

text \<open>First-seen-wins: a record stays, every later record with its identifier goes.\<close>

function first_seen :: "json list \<Rightarrow> json list" where
  "first_seen [] = []"
| "first_seen (m # ms) = m # first_seen (filter (\<lambda>x. movie_key x \<noteq> movie_key m) ms)"
  by pat_completeness auto
termination
  by (relation "measure length") (auto simp: less_Suc_eq_le)

text \<open>The URLs of the listing endpoints.\<close>

definition listing_urls :: "string list \<Rightarrow> piece list list" where
  "listing_urls eps = map (\<lambda>ep. [Lit (BASE_URL @ ep)]) eps"

text \<open>A row is built from a record: its plain fields are the record's (absent ones
  \<open>JNull\<close>), its poster and its genres are computed from the record.\<close>

definition from_record :: "genre_map \<Rightarrow> row \<Rightarrow> json \<Rightarrow> bool" where
  "from_record gm r m =
     (py_get m ''id'' JNull = Inr (row_id r)
      \<and> py_get m ''title'' JNull = Inr (title r)
      \<and> py_get m ''overview'' JNull = Inr (overview r)
      \<and> py_get m ''release_date'' JNull = Inr (release_date r)
      \<and> py_get m ''vote_average'' JNull = Inr (vote_average r)
      \<and> poster_of m = Inr (poster_url r)
      \<and> (case genres_of gm m of Inl e \<Rightarrow> False | Inr gs \<Rightarrow> py_join '', '' gs = Inr (genres r)))"

text \<open>
  The records one page of one endpoint delivered, read off the trace (none while the
  trace holds no completed fetch of that page), and the sequence of all delivered
  records in the order of the run as configured: endpoint by endpoint in the order of
  the given list, within an endpoint page by page from 1 to the page bound.
\<close>

definition page_records :: "session \<Rightarrow> string \<Rightarrow> event list \<Rightarrow> int \<Rightarrow> json list" where
  "page_records s endpoint evs page =
     (case fetched (page_request s endpoint page) evs of None \<Rightarrow> [] | Some d \<Rightarrow> records_of d)"

definition listing_sequence :: "session \<Rightarrow> string list \<Rightarrow> event list \<Rightarrow> json list" where
  "listing_sequence s eps evs =
     concat (map (\<lambda>endpoint. concat (map (page_records s endpoint evs) [1..PAGES_PER_ENDPOINT])) eps)"

text \<open>
  The identifier a row reads from a record (\<^verbatim>\<open>m.get("id")\<close>), and the requests for the genre
  list and for the credits of a movie.
\<close>

definition record_id :: "json \<Rightarrow> json" where
  "record_id m = (case py_get m ''id'' JNull of Inl e \<Rightarrow> JNull | Inr v \<Rightarrow> v)"

definition genre_request :: "session \<Rightarrow> request" where
  "genre_request s = (s, [Lit (BASE_URL @ ''/genre/movie/list'')], JNull)"

definition credits_request :: "session \<Rightarrow> json \<Rightarrow> request" where
  "credits_request s movie_id = (s, credits_url movie_id, JNull)"

text \<open>
  The credit summary of a credits payload, as \<^verbatim>\<open>get_movie_credits\<close> computes it from what
  the fetch gave; and a row's cast and director being that summary of the payload the
  run fetched for the row's identifier.
\<close>

definition credits_of :: "json \<Rightarrow> py_error + string \<times> json" where
  "credits_of data = (if \<not> truthy data then Inr ([], JStr []) else extract_credits data)"

definition credits_from :: "session \<Rightarrow> event list \<Rightarrow> row \<Rightarrow> bool" where
  "credits_from s evs r =
     (case fetched (s, credits_url (row_id r), JNull) evs of
        None \<Rightarrow> False
      | Some d \<Rightarrow> credits_of d = Inr (top_cast r, director r))"

text \<open>Crew entries: an entry directs when its \<^verbatim>\<open>job\<close> is the text \<^verbatim>\<open>Director\<close>; a well-formed
  entry is an object that has a \<^verbatim>\<open>name\<close> when it directs.\<close>

definition is_director :: "json \<Rightarrow> bool" where
  "is_director c = (py_get c ''job'' JNull = Inr (JStr ''Director''))"

definition crew_entry :: "json \<Rightarrow> bool" where
  "crew_entry c =
     (case c of
        JObj fs \<Rightarrow> map_of fs ''job'' = Some (JStr ''Director'') \<longrightarrow> map_of fs ''name'' \<noteq> None
      | _ \<Rightarrow> False)"

definition name_of :: "json \<Rightarrow> json" where
  "name_of c = (case py_getitem c ''name'' of Inl e \<Rightarrow> JNull | Inr n \<Rightarrow> n)"

section \<open>Example services\<close>

text \<open>A session; a service whose only answer is the first page of a listing, with one
  record; a service that answers every request with an empty result list.\<close>

definition demo_session :: session where
  "demo_session = create_session ''k''"

definition one_page_server :: server where
  "one_page_server tr s url ps =
     (if ps = page_params 1
      then Response 200 (Some (JObj [(''results'', JArr [JObj [(''id'', JInt 1)]])]))
      else Raised)"

definition empty_page_server :: server where
  "empty_page_server tr s url ps = Response 200 (Some (JObj [(''results'', JArr [])]))"

text \<open>A service that fails twice and then answers.\<close>

definition flaky_server :: server where
  "flaky_server tr s url ps = (if length tr < 4 then Raised else Response 200 (Some (JInt 7)))"

text \<open>A service that is down; the end-to-end example of the specification, with the genre
  identifiers of its one movie as a parameter; two listing endpoints that share a
  movie; a credits payload with seven cast entries and two directors.\<close>

definition down_server :: server where
  "down_server tr s url ps = Raised"

definition two_lists_server :: server where
  "two_lists_server tr s url ps =
     (if url = [Lit (BASE_URL @ ''/movie/popular'')] \<and> ps = page_params 1 then
        Response 200 (Some (JObj [(''results'',
          JArr [JObj [(''id'', JInt 1), (''title'', JStr ''first'')], JObj [(''id'', JInt 2)]])]))
      else if url = [Lit (BASE_URL @ ''/movie/top_rated'')] \<and> ps = page_params 1 then
        Response 200 (Some (JObj [(''results'',
          JArr [JObj [(''id'', JInt 1), (''title'', JStr ''second'')], JObj [(''id'', JInt 3)]])]))
      else Raised)"

definition two_lists_rows :: "row list" where
  "two_lists_rows =
     [\<lparr>row_id = JInt 1, title = JStr ''first'', overview = JNull, release_date = JNull,
        vote_average = JNull, genres = [], top_cast = [], director = JStr [], poster_url = []\<rparr>,
      \<lparr>row_id = JInt 2, title = JNull, overview = JNull, release_date = JNull,
        vote_average = JNull, genres = [], top_cast = [], director = JStr [], poster_url = []\<rparr>,
      \<lparr>row_id = JInt 3, title = JNull, overview = JNull, release_date = JNull,
        vote_average = JNull, genres = [], top_cast = [], director = JStr [], poster_url = []\<rparr>]"

definition credits_payload :: json where
  "credits_payload =
     JObj [(''cast'', JArr [JObj [(''name'', JStr ''A'')], JObj [(''name'', JStr ''B'')],
                            JObj [(''name'', JStr ''C'')], JObj [(''name'', JStr ''D'')],
                            JObj [(''name'', JStr ''E'')], JObj [(''name'', JStr ''F'')],
                            JObj [(''name'', JStr ''G'')]]),
           (''crew'', JArr [JObj [(''job'', JStr ''Producer''), (''name'', JStr ''P'')],
                            JObj [(''job'', JStr ''Director''), (''name'', JStr ''X'')],
                            JObj [(''job'', JStr ''Director''), (''name'', JStr ''Y'')]])]"

definition credits_server :: server where
  "credits_server tr s url ps = Response 200 (Some credits_payload)"

definition tmdb_example :: "json \<Rightarrow> server" where
  "tmdb_example genre_ids tr s url ps =
     (if url = [Lit (BASE_URL @ ''/genre/movie/list'')] then
        Response 200 (Some (JObj [(''genres'',
          JArr [JObj [(''id'', JInt 28), (''name'', JStr ''Action'')]])]))
      else if url = [Lit (BASE_URL @ ''/movie/popular'')] \<and> ps = page_params 1 then
        Response 200 (Some (JObj [(''results'',
          JArr [JObj [(''id'', JInt 1), (''title'', JStr ''X''), (''genre_ids'', genre_ids),
                      (''poster_path'', JStr ''/a.jpg'')]])]))
      else if url = credits_url (JInt 1) then
        Response 200 (Some (JObj
          [(''cast'', JArr [JObj [(''name'', JStr ''A'')], JObj [(''name'', JStr ''B'')]]),
           (''crew'', JArr [JObj [(''job'', JStr ''Director''), (''name'', JStr ''D'')]])]))
      else Raised)"

text \<open>The genre list, two listing endpoints that share movie 1 under different titles,
  and credits for movie 1; the rows a run against it writes.\<close>

definition shared_movie_server :: server where
  "shared_movie_server tr s url ps =
     (if url = [Lit (BASE_URL @ ''/genre/movie/list'')] then
        Response 200 (Some (JObj [(''genres'',
          JArr [JObj [(''id'', JInt 28), (''name'', JStr ''Action'')]])]))
      else if url = [Lit (BASE_URL @ ''/movie/popular'')] \<and> ps = page_params 1 then
        Response 200 (Some (JObj [(''results'',
          JArr [JObj [(''id'', JInt 1), (''title'', JStr ''first''), (''genre_ids'', JArr [JInt 28])],
                JObj [(''id'', JInt 2)]])]))
      else if url = [Lit (BASE_URL @ ''/movie/top_rated'')] \<and> ps = page_params 1 then
        Response 200 (Some (JObj [(''results'',
          JArr [JObj [(''id'', JInt 1), (''title'', JStr ''second'')], JObj [(''id'', JInt 3)]])]))
      else if url = credits_url (JInt 1) then
        Response 200 (Some (JObj
          [(''cast'', JArr [JObj [(''name'', JStr ''A'')], JObj [(''name'', JStr ''B'')]]),
           (''crew'', JArr [JObj [(''job'', JStr ''Director''), (''name'', JStr ''D'')]])]))
      else Raised)"

definition shared_movie_rows :: "row list" where
  "shared_movie_rows =
     [\<lparr>row_id = JInt 1, title = JStr ''first'', overview = JNull, release_date = JNull,
        vote_average = JNull, genres = ''Action'', top_cast = ''A, B'', director = JStr ''D'',
        poster_url = []\<rparr>,
      \<lparr>row_id = JInt 2, title = JNull, overview = JNull, release_date = JNull,
        vote_average = JNull, genres = [], top_cast = [], director = JStr [], poster_url = []\<rparr>,
      \<lparr>row_id = JInt 3, title = JNull, overview = JNull, release_date = JNull,
        vote_average = JNull, genres = [], top_cast = [], director = JStr [], poster_url = []\<rparr>]"

section \<open>The retrying fetch: proofs\<close>

lemma requests_append [simp]: "requests (a @ b) = requests a @ requests b"
  by (induction a rule: requests.induct) simp_all

lemma answers_append [simp]: "answers rq (a @ b) = answers rq a @ answers rq b"
  by (induction rq a rule: answers.induct) simp_all

lemma failures_append [simp]: "failures rq (a @ b) = failures rq a + failures rq b"
  by (induction rq a rule: failures.induct) simp_all

lemma listed_append [simp]: "listed urls (a @ b) = listed urls a @ listed urls b"
  by (induction urls a rule: listed.induct) simp_all

lemma writes_append [simp]: "writes (a @ b) = writes a @ writes b"
  by (induction a rule: writes.induct) simp_all

lemma not_requested:
  "rq \<notin> set (requests evs) \<Longrightarrow> answers rq evs = [] \<and> failures rq evs = 0"
  by (induction rq evs rule: answers.induct) auto

lemma attempts_step:
  "attempts (Suc n) srv s url ps tr =
     (let r = srv tr s url ps in
      if succeeded r then (payload r, tr @ [Get s url ps r])
      else attempts n srv s url ps (tr @ [Get s url ps r, Sleep 1]))"
  by (simp add: Let_def succeeded_def payload_def split: outcome.splits option.splits)

declare attempts.simps(2) [simp del]

lemma safe_get_unfold:
  "safe_get srv s url ps tr = attempts (Suc (Suc (Suc 0))) srv s url ps tr"
  by (simp add: safe_get_def numeral_3_eq_3)

lemma records_of_JNull [simp]: "records_of JNull = []"
  by (simp add: records_of_def)

lemma safe_get_trace:
  "\<exists>evs n. snd (safe_get srv s url ps tr) = tr @ evs
      \<and> 1 \<le> n \<and> n \<le> 3 \<and> requests evs = replicate n (s, url, ps)
      \<and> fetched (s, url, ps) evs = Some (fst (safe_get srv s url ps tr))
      \<and> listed urls evs = (if url \<in> set urls then records_of (fst (safe_get srv s url ps tr)) else [])
      \<and> writes evs = []"
proof -
  let ?r1 = "srv tr s url ps"
  let ?t1 = "tr @ [Get s url ps ?r1, Sleep 1]"
  let ?r2 = "srv ?t1 s url ps"
  let ?t2 = "?t1 @ [Get s url ps ?r2, Sleep 1]"
  let ?r3 = "srv ?t2 s url ps"
  consider (a) "succeeded ?r1"
    | (b) "\<not> succeeded ?r1" "succeeded ?r2"
    | (c) "\<not> succeeded ?r1" "\<not> succeeded ?r2" "succeeded ?r3"
    | (d) "\<not> succeeded ?r1" "\<not> succeeded ?r2" "\<not> succeeded ?r3"
    by blast
  then show ?thesis
  proof cases
    case a
    then show ?thesis
      by (intro exI[of _ "[Get s url ps ?r1]"] exI[of _ 1])
         (simp add: safe_get_unfold attempts_step Let_def fetched_def)
  next
    case b
    then show ?thesis
      by (intro exI[of _ "[Get s url ps ?r1, Sleep 1, Get s url ps ?r2]"] exI[of _ 2])
         (simp add: safe_get_unfold attempts_step Let_def fetched_def numeral_2_eq_2)
  next
    case c
    then show ?thesis
      by (intro exI[of _ "[Get s url ps ?r1, Sleep 1, Get s url ps ?r2, Sleep 1, Get s url ps ?r3]"]
            exI[of _ 3])
         (simp add: safe_get_unfold attempts_step Let_def fetched_def numeral_3_eq_3)
  next
    case d
    then show ?thesis
      by (intro exI[of _ "[Get s url ps ?r1, Sleep 1, Get s url ps ?r2, Sleep 1, Get s url ps ?r3, Sleep 1]"]
            exI[of _ 3])
         (simp add: safe_get_unfold attempts_step Let_def fetched_def numeral_3_eq_3)
  qed
qed


section \<open>Listing paginator: proofs\<close>

lemma pages_loop_Cons:
  "pages_loop srv s ep (p # rest) acc tr =
     (case classify (fst (safe_get srv s [Lit (BASE_URL @ ep)] (page_params p) tr)) of
        Stop \<Rightarrow> (Inr acc, snd (safe_get srv s [Lit (BASE_URL @ ep)] (page_params p) tr))
      | Fail e \<Rightarrow> (Inl e, snd (safe_get srv s [Lit (BASE_URL @ ep)] (page_params p) tr))
      | Items xs \<Rightarrow>
          pages_loop srv s ep rest (acc @ xs)
            (snd (safe_get srv s [Lit (BASE_URL @ ep)] (page_params p) tr)
               @ [Print (page_line ep p (length xs)), Sleep SLEEP_BETWEEN_REQUESTS]))"
  by (auto simp: classify_def split: prod.splits sum.splits bool.splits)

declare pages_loop.simps(2) [simp del]

lemma map_of_Some_key: "map_of kvs k = Some v \<Longrightarrow> k \<in> fst ` set kvs"
  by (induction kvs) (auto split: if_splits)

lemma map_of_None_key: "k \<notin> fst ` set kvs \<Longrightarrow> map_of kvs k = None"
  by (induction kvs) auto

lemma classify_no_results: "no_results d \<Longrightarrow> classify d = Stop"
  by (cases d) (auto simp: no_results_def classify_def)

lemma classify_Stop_records: "classify d = Stop \<Longrightarrow> records_of d = []"
  by (cases d)
     (auto simp: classify_def records_of_def map_of_None_key
           split: if_splits sum.splits bool.splits option.splits)

lemma classify_Items_records: "classify d = Items xs \<Longrightarrow> records_of d = xs"
  by (auto simp: classify_def records_of_def split: if_splits sum.splits bool.splits)

lemma classify_empty_results:
  "map_of kvs ''results'' = Some (JArr []) \<Longrightarrow> classify (JObj kvs) = Items []"
proof -
  assume a: "map_of kvs ''results'' = Some (JArr [])"
  then have "''results'' \<in> fst ` set kvs" by (rule map_of_Some_key)
  moreover from a have "kvs \<noteq> []" by auto
  ultimately show ?thesis using a by (simp add: classify_def)
qed

lemma page_request_inj [simp]: "page_request s ep p = page_request s ep q \<longleftrightarrow> p = q"
  by (simp add: page_request_def page_params_def)

lemma fetched_append_left: "rq \<notin> set (requests b) \<Longrightarrow> fetched rq (a @ b) = fetched rq a"
  by (simp add: fetched_def not_requested)

lemma fetched_append_right: "rq \<notin> set (requests a) \<Longrightarrow> fetched rq (a @ b) = fetched rq b"
  by (simp add: fetched_def not_requested)

lemma fetched_not_requested: "rq \<notin> set (requests a) \<Longrightarrow> fetched rq a = None"
  by (simp add: fetched_def not_requested)

lemma set_concat_replicate:
  "length ns = length xs \<Longrightarrow> set (concat (map2 replicate ns xs)) \<subseteq> set xs"
  by (induction ns xs rule: list_induct2) auto


lemma pages_loop_trace:
  assumes "distinct ps" and "[Lit (BASE_URL @ ep)] \<in> set urls"
  shows "\<exists>evs qs ns.
      snd (pages_loop srv s ep ps acc tr) = tr @ evs
    \<and> prefix qs ps \<and> (ps \<noteq> [] \<longrightarrow> qs \<noteq> [])
    \<and> length ns = length qs \<and> (\<forall>n\<in>set ns. 1 \<le> n \<and> n \<le> 3)
    \<and> requests evs = concat (map2 replicate ns (map (page_request s ep) qs))
    \<and> (\<forall>xs. fst (pages_loop srv s ep ps acc tr) = Inr xs \<longrightarrow> xs = acc @ listed urls evs)
    \<and> (\<forall>p d. fetched (page_request s ep p) evs = Some d \<and> no_results d \<longrightarrow>
           qs \<noteq> [] \<and> p = last qs
           \<and> fst (pages_loop srv s ep ps acc tr) = Inr (acc @ listed urls evs))
    \<and> (\<forall>p kvs i. fetched (page_request s ep p) evs = Some (JObj kvs)
           \<and> map_of kvs ''results'' = Some (JArr [])
           \<and> Suc i < length ps \<and> ps ! i = p \<longrightarrow> ps ! Suc i \<in> set qs)
    \<and> writes evs = []"
  using assms
proof (induction ps arbitrary: acc tr)
  case Nil
  show ?case
    by (intro exI[of _ "[]"]) (simp add: fetched_def)
next
  case (Cons p0 rest)
  let ?U = "[Lit (BASE_URL @ ep)]"
  let ?sg = "safe_get srv s ?U (page_params p0) tr"
  let ?rq = "page_request s ep"
  let ?d = "fst ?sg"
  obtain evs1 n where e1: "snd ?sg = tr @ evs1" "1 \<le> n" "n \<le> 3"
      "requests evs1 = replicate n (?rq p0)" "fetched (?rq p0) evs1 = Some ?d"
      "listed urls evs1 = records_of ?d" "writes evs1 = []"
    using safe_get_trace[of srv s ?U "page_params p0" tr urls] Cons.prems(2)
    unfolding page_request_def by auto
  have set1: "set (requests evs1) = {?rq p0}"
    using e1(2,4) by auto
  have other1: "fetched (?rq p) evs1 = None" if "p \<noteq> p0" for p
    by (rule fetched_not_requested) (simp add: set1 that)
  show ?case
  proof (cases "classify ?d")
    case Stop
    have res: "pages_loop srv s ep (p0 # rest) acc tr = (Inr acc, tr @ evs1)"
      by (simp add: pages_loop_Cons Stop e1)
    have l: "listed urls evs1 = []"
      using e1(6) classify_Stop_records[OF Stop] by simp
    have f: "p = p0 \<and> d = ?d" if "fetched (?rq p) evs1 = Some d" for p d
      using that other1[of p] e1(5) by (cases "p = p0") auto
    have nz: "\<not> (?d = JObj kvs \<and> map_of kvs ''results'' = Some (JArr []))" for kvs
      using Stop classify_empty_results[of kvs] by auto
    show ?thesis
      apply (intro exI[of _ evs1] exI[of _ "[p0]"] exI[of _ "[n]"])
      using e1(2,3,4,7) l nz
      by (auto simp: res dest: f)
  next
    case (Fail e)
    have res: "pages_loop srv s ep (p0 # rest) acc tr = (Inl e, tr @ evs1)"
      by (simp add: pages_loop_Cons Fail e1)
    have f: "p = p0 \<and> d = ?d" if "fetched (?rq p) evs1 = Some d" for p d
      using that other1[of p] e1(5) by (cases "p = p0") auto
    have nr: "\<not> no_results ?d"
      using Fail classify_no_results[of ?d] by auto
    have nz: "\<not> (?d = JObj kvs \<and> map_of kvs ''results'' = Some (JArr []))" for kvs
      using Fail classify_empty_results[of kvs] by auto
    show ?thesis
      apply (intro exI[of _ evs1] exI[of _ "[p0]"] exI[of _ "[n]"])
      using e1(2,3,4,7) nr nz
      by (auto simp: res dest: f)
  next
    case (Items xs)
    let ?mid = "[Print (page_line ep p0 (length xs)), Sleep SLEEP_BETWEEN_REQUESTS]"
    let ?tr2 = "tr @ evs1 @ ?mid"
    let ?R = "pages_loop srv s ep rest (acc @ xs) ?tr2"
    have res: "pages_loop srv s ep (p0 # rest) acc tr = ?R"
      by (simp add: pages_loop_Cons Items e1)
    have d: "distinct rest" and p0: "p0 \<notin> set rest"
      using Cons.prems(1) by auto
    from Cons.IH[OF d Cons.prems(2), of "acc @ xs" ?tr2]
    obtain evs2 qs2 ns2 where ih:
      "snd ?R = ?tr2 @ evs2" "prefix qs2 rest" "rest \<noteq> [] \<longrightarrow> qs2 \<noteq> []"
      "length ns2 = length qs2" "\<forall>n\<in>set ns2. 1 \<le> n \<and> n \<le> 3"
      "requests evs2 = concat (map2 replicate ns2 (map ?rq qs2))"
      "\<forall>ys. fst ?R = Inr ys \<longrightarrow> ys = (acc @ xs) @ listed urls evs2"
      "\<forall>p d. fetched (?rq p) evs2 = Some d \<and> no_results d \<longrightarrow>
           qs2 \<noteq> [] \<and> p = last qs2 \<and> fst ?R = Inr ((acc @ xs) @ listed urls evs2)"
      "\<forall>p kvs i. fetched (?rq p) evs2 = Some (JObj kvs)
           \<and> map_of kvs ''results'' = Some (JArr [])
           \<and> Suc i < length rest \<and> rest ! i = p \<longrightarrow> rest ! Suc i \<in> set qs2"
      "writes evs2 = []"
      by blast
    let ?evs = "evs1 @ ?mid @ evs2"
    have l1: "listed urls evs1 = xs"
      using e1(6) classify_Items_records[OF Items] by simp
    have sub2: "set (requests evs2) \<subseteq> ?rq ` set rest"
    proof -
      have "set (requests evs2) \<subseteq> set (map ?rq qs2)"
        unfolding ih(6) by (rule set_concat_replicate) (simp add: ih(4))
      also have "\<dots> \<subseteq> ?rq ` set rest"
        using ih(2) by (auto dest: set_mono_prefix)
      finally show ?thesis .
    qed
    have notin2: "?rq p0 \<notin> set (requests evs2)"
      using sub2 p0 by auto
    have f0: "fetched (?rq p0) ?evs = Some ?d"
    proof -
      have a: "?rq p0 \<notin> set (requests (?mid @ evs2))"
        using notin2 by simp
      show ?thesis
        by (rule trans[OF fetched_append_left[OF a] e1(5)])
    qed
    have f1: "fetched (?rq p) ?evs = fetched (?rq p) evs2" if "p \<noteq> p0" for p
    proof -
      have a: "?rq p \<notin> set (requests (evs1 @ ?mid))"
        using that by (simp add: set1)
      have "fetched (?rq p) ((evs1 @ ?mid) @ evs2) = fetched (?rq p) evs2"
        by (rule fetched_append_right[OF a])
      then show ?thesis by (simp only: append_assoc)
    qed
    have nr: "\<not> no_results ?d"
      using Items classify_no_results[of ?d] by auto
    have c1: "snd (pages_loop srv s ep (p0 # rest) acc tr) = tr @ ?evs"
      by (simp add: res ih(1))
    have c2: "prefix (p0 # qs2) (p0 # rest)" using ih(2) by simp
    have c3: "length (n # ns2) = length (p0 # qs2)" using ih(4) by simp
    have c4: "\<forall>m\<in>set (n # ns2). 1 \<le> m \<and> m \<le> 3" using ih(5) e1(2,3) by simp
    have c5: "requests ?evs = concat (map2 replicate (n # ns2) (map ?rq (p0 # qs2)))"
      by (simp add: e1(4) ih(6))
    have c6: "\<forall>ys. fst (pages_loop srv s ep (p0 # rest) acc tr) = Inr ys
                \<longrightarrow> ys = acc @ listed urls ?evs"
      using ih(7) by (simp add: res l1)
    have c7: "\<forall>p d. fetched (?rq p) ?evs = Some d \<and> no_results d \<longrightarrow>
           p0 # qs2 \<noteq> [] \<and> p = last (p0 # qs2)
           \<and> fst (pages_loop srv s ep (p0 # rest) acc tr) = Inr (acc @ listed urls ?evs)"
    proof (intro allI impI)
      fix p d assume a: "fetched (?rq p) ?evs = Some d \<and> no_results d"
      have "p \<noteq> p0" using a f0 nr by auto
      then have "fetched (?rq p) evs2 = Some d" using a f1 by simp
      then have "qs2 \<noteq> [] \<and> p = last qs2 \<and> fst ?R = Inr ((acc @ xs) @ listed urls evs2)"
        using ih(8) a by blast
      then show "p0 # qs2 \<noteq> [] \<and> p = last (p0 # qs2)
           \<and> fst (pages_loop srv s ep (p0 # rest) acc tr) = Inr (acc @ listed urls ?evs)"
        by (simp add: res l1)
    qed
    have c8: "\<forall>p kvs i. fetched (?rq p) ?evs = Some (JObj kvs)
           \<and> map_of kvs ''results'' = Some (JArr [])
           \<and> Suc i < length (p0 # rest) \<and> (p0 # rest) ! i = p
           \<longrightarrow> (p0 # rest) ! Suc i \<in> set (p0 # qs2)"
    proof (intro allI impI)
      fix p kvs i
      assume a: "fetched (?rq p) ?evs = Some (JObj kvs)
           \<and> map_of kvs ''results'' = Some (JArr [])
           \<and> Suc i < length (p0 # rest) \<and> (p0 # rest) ! i = p"
      show "(p0 # rest) ! Suc i \<in> set (p0 # qs2)"
      proof (cases i)
        case 0
        then have "rest \<noteq> []" using a by auto
        then have "qs2 \<noteq> []" using ih(3) by simp
        then have "hd qs2 = hd rest" using ih(2) \<open>rest \<noteq> []\<close>
          by (cases qs2; cases rest) auto
        then have "rest ! 0 \<in> set qs2"
          using \<open>qs2 \<noteq> []\<close> \<open>rest \<noteq> []\<close> by (cases qs2; cases rest) auto
        then show ?thesis using 0 by simp
      next
        case (Suc j)
        then have pj: "rest ! j = p" "Suc j < length rest" using a by auto
        then have "p \<in> set rest" by (metis Suc_lessD nth_mem)
        then have "p \<noteq> p0" using p0 by auto
        then have "fetched (?rq p) evs2 = Some (JObj kvs)" using a f1 by simp
        then have "rest ! Suc j \<in> set qs2" using ih(9) a pj by blast
        then show ?thesis using Suc by simp
      qed
    qed
    have c9: "writes ?evs = []" using e1(7) ih(10) by simp
    show ?thesis
      apply (intro exI[of _ ?evs] exI[of _ "p0 # qs2"] exI[of _ "n # ns2"])
      using c1 c2 c3 c4 c5 c6 c7 c8 c9 by blast
  qed
qed



lemma set_concat_replicate_eq:
  "length ns = length xs \<Longrightarrow> \<forall>n\<in>set ns. 1 \<le> n \<Longrightarrow> set (concat (map2 replicate ns xs)) = set xs"
  by (induction ns xs rule: list_induct2) auto

section \<open>Deduplication: proofs\<close>

lemma scalar_hashable: "scalar i \<Longrightarrow> \<exists>k. hashable i = Inr k"
  by (cases i) auto

lemma has_id_key: "has_id m \<Longrightarrow> \<exists>k. movie_key m = Inr k"
  by (cases m) (auto simp: has_id_def movie_key_def split: option.splits dest: scalar_hashable)

lemma dedup_movies_Cons:
  "dedup_movies (m # ms) all_movies seen =
     (case movie_key m of
        Inl e \<Rightarrow> Inl e
      | Inr k \<Rightarrow> if k \<in> seen then dedup_movies ms all_movies seen
                 else dedup_movies ms (all_movies @ [m]) (insert k seen))"
  by (simp add: movie_key_def split: sum.splits)

declare dedup_movies.simps(2) [simp del]

lemma dedup_movies_append:
  "dedup_movies (xs @ ys) all_movies seen =
     (case dedup_movies xs all_movies seen of
        Inl e \<Rightarrow> Inl e
      | Inr (a, b) \<Rightarrow> dedup_movies ys a b)"
  by (induction xs arbitrary: all_movies seen) (auto simp: dedup_movies_Cons split: sum.splits)

lemma dedup_movies_total:
  "\<forall>m\<in>set ms. has_id m \<Longrightarrow> \<exists>r. dedup_movies ms all_movies seen = Inr r"
proof (induction ms arbitrary: all_movies seen)
  case Nil
  show ?case by simp
next
  case (Cons m ms)
  then obtain k where "movie_key m = Inr k" using has_id_key[of m] by auto
  with Cons show ?case by (simp add: dedup_movies_Cons)
qed

lemma set_first_seen: "set (first_seen ms) \<subseteq> set ms"
  by (induction ms rule: first_seen.induct) auto

lemma keys_first_seen: "movie_key ` set (first_seen ms) = movie_key ` set ms"
  by (induction ms rule: first_seen.induct) (auto simp: image_iff)

lemma distinct_first_seen: "distinct (map movie_key (first_seen ms))"
proof (induction ms rule: first_seen.induct)
  case 1
  show ?case by simp
next
  case (2 m ms)
  have "movie_key m \<notin> movie_key ` set (first_seen (filter (\<lambda>x. movie_key x \<noteq> movie_key m) ms))"
    using set_first_seen[of "filter (\<lambda>x. movie_key x \<noteq> movie_key m) ms"] by auto
  with 2 show ?case by simp
qed

lemma subseq_first_seen: "subseq (first_seen ms) ms"
proof (induction ms rule: first_seen.induct)
  case 1
  show ?case by simp
next
  case (2 m ms)
  have "subseq (filter (\<lambda>x. movie_key x \<noteq> movie_key m) ms) ms" by simp
  with 2 have "subseq (first_seen (filter (\<lambda>x. movie_key x \<noteq> movie_key m) ms)) ms"
    by (rule subseq_order.trans)
  then show ?case by simp
qed

lemma find_first_seen:
  "m \<in> set (first_seen ms) \<Longrightarrow> find (\<lambda>x. movie_key x = movie_key m) ms = Some m"
proof (induction ms rule: first_seen.induct)
  case 1
  then show ?case by simp
next
  case (2 a ms)
  show ?case
  proof (cases "m = a")
    case True
    then show ?thesis by simp
  next
    case False
    with 2 have in': "m \<in> set (first_seen (filter (\<lambda>x. movie_key x \<noteq> movie_key a) ms))" by simp
    then have ne: "movie_key m \<noteq> movie_key a"
      using set_first_seen[of "filter (\<lambda>x. movie_key x \<noteq> movie_key a) ms"] by auto
    from 2 in' have "find (\<lambda>x. movie_key x = movie_key m) (filter (\<lambda>x. movie_key x \<noteq> movie_key a) ms) = Some m"
      by simp
    moreover have "find (\<lambda>x. movie_key x = movie_key m) (filter (\<lambda>x. movie_key x \<noteq> movie_key a) ms)
        = find (\<lambda>x. movie_key x = movie_key m) ms"
      using ne by (induction ms) auto
    ultimately show ?thesis using ne by simp
  qed
qed

lemma dedup_first_seen:
  "dedup_movies ms all_movies seen = Inr (all', seen') \<Longrightarrow>
     all' = all_movies @ first_seen (filter (\<lambda>m. movie_key m \<notin> Inr ` seen) ms)
     \<and> (\<forall>m\<in>set ms. \<exists>k. movie_key m = Inr k)"
proof (induction ms arbitrary: all_movies seen)
  case Nil
  then show ?case by simp
next
  case (Cons m ms)
  from Cons.prems obtain k where k: "movie_key m = Inr k"
    by (cases "movie_key m") (auto simp: dedup_movies_Cons)
  show ?case
  proof (cases "k \<in> seen")
    case True
    with Cons.prems k have "dedup_movies ms all_movies seen = Inr (all', seen')"
      by (simp add: dedup_movies_Cons)
    from Cons.IH[OF this] show ?thesis using True k by auto
  next
    case False
    with Cons.prems k have "dedup_movies ms (all_movies @ [m]) (insert k seen) = Inr (all', seen')"
      by (simp add: dedup_movies_Cons)
    from Cons.IH[OF this]
    have ih: "all' = (all_movies @ [m]) @ first_seen (filter (\<lambda>x. movie_key x \<notin> Inr ` insert k seen) ms)"
      and ks: "\<forall>m\<in>set ms. \<exists>k. movie_key m = Inr k" by auto
    have "filter (\<lambda>x. movie_key x \<notin> Inr ` insert k seen) ms
        = filter (\<lambda>x. movie_key x \<noteq> movie_key m) (filter (\<lambda>x. movie_key x \<notin> Inr ` seen) ms)"
      by (auto simp: k intro: filter_cong)
    with ih False k ks show ?thesis by auto
  qed
qed


section \<open>Credit enricher: proofs\<close>

lemma names_of_text:
  "map (\<lambda>c. py_getitem c ''name'') xs = map (\<lambda>n. Inr (JStr n)) names
     \<Longrightarrow> names_of xs = Inr (map JStr names)"
proof (induction xs arbitrary: names)
  case Nil
  then show ?case by simp
next
  case (Cons c cs)
  then obtain n ns where "names = n # ns" by (cases names) auto
  with Cons show ?case by simp
qed

lemma py_strs_text: "py_strs (map JStr names) = Inr names"
  by (induction names) simp_all

lemma director_names_crew:
  "\<forall>w\<in>set ws. crew_entry w \<Longrightarrow>
     director_names ws = Inr (map name_of (filter is_director ws))"
proof (induction ws)
  case Nil
  show ?case by simp
next
  case (Cons w ws)
  then have ih: "director_names ws = Inr (map name_of (filter is_director ws))" by simp
  from Cons.prems obtain fs where w: "w = JObj fs"
    and nm: "map_of fs ''job'' = Some (JStr ''Director'') \<longrightarrow> map_of fs ''name'' \<noteq> None"
    by (cases w) (auto simp: crew_entry_def)
  show ?case
  proof (cases "is_director w")
    case True
    then have job: "py_get w ''job'' JNull = Inr (JStr ''Director'')"
      by (simp add: is_director_def)
    then have "map_of fs ''job'' = Some (JStr ''Director'')"
      using w by (auto split: option.splits)
    then obtain n where "map_of fs ''name'' = Some n" using nm by auto
    then have "py_getitem w ''name'' = Inr n" "name_of w = n"
      by (simp_all add: w name_of_def)
    then show ?thesis using True job ih by simp
  next
    case False
    then have "py_get w ''job'' JNull \<noteq> Inr (JStr ''Director'')"
      by (simp add: is_director_def)
    moreover have "\<exists>j. py_get w ''job'' JNull = Inr j"
      by (cases "map_of fs ''job''") (simp_all add: w)
    then obtain j where "py_get w ''job'' JNull = Inr j" ..
    ultimately show ?thesis using False ih by simp
  qed
qed

lemma first_of_filter:
  "(case map f (filter P xs) of [] \<Rightarrow> a | x # _ \<Rightarrow> x) = (case find P xs of None \<Rightarrow> a | Some x \<Rightarrow> f x)"
  by (induction xs) auto

section \<open>The run: proofs\<close>

lemma build_row_poster:
  "build_row srv s gm m tr = (Inr r, tr') \<Longrightarrow> poster_of m = Inr (poster_url r)"
  by (auto simp: build_row_def split: sum.splits prod.splits)

lemma paginator_trace:
  assumes "[Lit (BASE_URL @ ep)] \<in> set urls"
  shows "\<exists>evs. snd (get_movies_from_endpoint srv s ep pages tr) = tr @ evs \<and> writes evs = []
     \<and> (\<forall>xs. fst (get_movies_from_endpoint srv s ep pages tr) = Inr xs \<longrightarrow> xs = listed urls evs)"
proof -
  from pages_loop_trace[of "[1..pages]" ep urls srv s "[]" tr, OF distinct_upto assms]
  obtain evs where "snd (pages_loop srv s ep [1..pages] [] tr) = tr @ evs" "writes evs = []"
    "\<forall>xs. fst (pages_loop srv s ep [1..pages] [] tr) = Inr xs \<longrightarrow> xs = [] @ listed urls evs"
    by blast
  then show ?thesis
    unfolding get_movies_from_endpoint_def by (intro exI[of _ evs]) simp
qed

lemmas collect_movies_Cons = collect_movies.simps(2)
lemmas build_rows_Cons = build_rows.simps(2)

declare collect_movies.simps(2) [simp del] build_rows.simps(2) [simp del]

lemma collect_movies_trace:
  assumes "set (listing_urls eps) \<subseteq> set urls"
  shows "\<exists>evs. snd (collect_movies srv s eps all_movies seen tr) = tr @ evs \<and> writes evs = []
     \<and> (\<forall>r. fst (collect_movies srv s eps all_movies seen tr) = Inr r
            \<longrightarrow> dedup_movies (listed urls evs) all_movies seen = Inr r)"
  using assms
proof (induction eps arbitrary: all_movies seen tr)
  case Nil
  show ?case by (intro exI[of _ "[]"]) simp
next
  case (Cons ep rest)
  let ?tr0 = "tr @ [Print (endpoint_line ep)]"
  let ?G = "get_movies_from_endpoint srv s ep PAGES_PER_ENDPOINT ?tr0"
  have u: "[Lit (BASE_URL @ ep)] \<in> set urls" and r: "set (listing_urls rest) \<subseteq> set urls"
    using Cons.prems by (auto simp: listing_urls_def)
  from paginator_trace[OF u, of srv s PAGES_PER_ENDPOINT ?tr0]
  obtain evs1 where e1: "snd ?G = tr @ Print (endpoint_line ep) # evs1" "writes evs1 = []"
    "\<forall>xs. fst ?G = Inr xs \<longrightarrow> xs = listed urls evs1"
    by auto
  let ?tr1 = "tr @ Print (endpoint_line ep) # evs1"
  show ?case
  proof (cases "fst ?G")
    case (Inl e)
    then have "collect_movies srv s (ep # rest) all_movies seen tr = (Inl e, ?tr1)"
      using e1(1) by (cases ?G) (auto simp: collect_movies_Cons)
    then show ?thesis
      by (intro exI[of _ "Print (endpoint_line ep) # evs1"]) (simp add: e1(2))
  next
    case (Inr movies)
    then have m: "movies = listed urls evs1" using e1(3) by simp
    have G: "?G = (Inr movies, ?tr1)" using Inr e1(1) by (cases ?G) auto
    show ?thesis
    proof (cases "dedup_movies movies all_movies seen")
      case (Inl e)
      then have "collect_movies srv s (ep # rest) all_movies seen tr = (Inl e, ?tr1)"
        using G by (simp add: collect_movies_Cons)
      then show ?thesis
        by (intro exI[of _ "Print (endpoint_line ep) # evs1"]) (simp add: e1(2))
    next
      case (Inr p)
      obtain a b where p: "p = (a, b)" by (cases p)
      let ?C = "collect_movies srv s rest a b ?tr1"
      have c: "collect_movies srv s (ep # rest) all_movies seen tr = ?C"
        using G Inr p by (simp add: collect_movies_Cons)
      from Cons.IH[OF r, of a b ?tr1]
      obtain evs2 where e2: "snd ?C = tr @ Print (endpoint_line ep) # evs1 @ evs2" "writes evs2 = []"
          "\<forall>r. fst ?C = Inr r \<longrightarrow> dedup_movies (listed urls evs2) a b = Inr r"
        by auto
      have "dedup_movies (listed urls (Print (endpoint_line ep) # evs1 @ evs2)) all_movies seen = Inr r"
        if "fst ?C = Inr r" for r
        using that e2(3) Inr p m by (simp add: dedup_movies_append)
      then show ?thesis
        by (intro exI[of _ "Print (endpoint_line ep) # evs1 @ evs2"])
           (simp add: c e1(2) e2(1,2))
    qed
  qed
qed

lemma get_genres_trace:
  assumes "[Lit (BASE_URL @ ''/genre/movie/list'')] \<notin> set urls"
  shows "\<exists>evs. snd (get_genres srv s tr) = tr @ evs \<and> writes evs = [] \<and> listed urls evs = []"
proof -
  let ?sg = "safe_get srv s [Lit (BASE_URL @ ''/genre/movie/list'')] JNull tr"
  have "snd (get_genres srv s tr) = snd ?sg"
    by (simp add: get_genres_def split: prod.splits sum.splits bool.splits)
  with safe_get_trace[of srv s "[Lit (BASE_URL @ ''/genre/movie/list'')]" JNull tr urls] assms
  show ?thesis by auto
qed

lemma build_row_trace:
  assumes "\<forall>u\<in>set urls. length u = 1"
  shows "\<exists>evs. snd (build_row srv s gm m tr) = tr @ evs \<and> writes evs = [] \<and> listed urls evs = []"
proof -
  have nu: "credits_url mid \<notin> set urls" for mid
    using assms by (auto simp: credits_url_def)
  have cr: "snd (get_movie_credits srv s mid tr) = snd (safe_get srv s (credits_url mid) JNull tr)"
    for mid
    by (simp add: get_movie_credits_def split: prod.splits)
  let ?mid = "case py_get m ''id'' JNull of Inl e \<Rightarrow> JNull | Inr v \<Rightarrow> v"
  have "snd (build_row srv s gm m tr) = tr
      \<or> snd (build_row srv s gm m tr) = snd (get_movie_credits srv s ?mid tr)"
    by (auto simp: build_row_def split: sum.splits prod.splits)
  then have "snd (build_row srv s gm m tr) = tr
      \<or> (\<exists>mid. snd (build_row srv s gm m tr) = snd (safe_get srv s (credits_url mid) JNull tr))"
    using cr by metis
  then show ?thesis
  proof
    assume "snd (build_row srv s gm m tr) = tr"
    then show ?thesis by (intro exI[of _ "[]"]) simp
  next
    assume "\<exists>mid. snd (build_row srv s gm m tr) = snd (safe_get srv s (credits_url mid) JNull tr)"
    then obtain mid where "snd (build_row srv s gm m tr) = snd (safe_get srv s (credits_url mid) JNull tr)" ..
    with safe_get_trace[of srv s "credits_url mid" JNull tr urls] nu[of mid]
    show ?thesis by auto
  qed
qed

lemma build_row_from_record:
  "build_row srv s gm m tr = (Inr r, tr') \<Longrightarrow> from_record gm r m"
  by (auto simp: build_row_def from_record_def split: sum.splits prod.splits)

lemma build_rows_trace:
  assumes "\<forall>u\<in>set urls. length u = 1"
  shows "\<exists>evs. snd (build_rows srv s gm n i ms rows tr) = tr @ evs \<and> writes evs = []
      \<and> listed urls evs = []
      \<and> (\<forall>rows'. fst (build_rows srv s gm n i ms rows tr) = Inr rows'
            \<longrightarrow> (\<exists>new. rows' = rows @ new \<and> list_all2 (from_record gm) new ms))"
proof (induction ms arbitrary: i rows tr)
  case Nil
  show ?case by (intro exI[of _ "[]"]) simp
next
  case (Cons m ms)
  let ?B = "build_row srv s gm m tr"
  from build_row_trace[OF assms, of srv s gm m tr]
  obtain evs1 where e1: "snd ?B = tr @ evs1" "writes evs1 = []" "listed urls evs1 = []"
    by blast
  show ?case
  proof (cases "fst ?B")
    case (Inl e)
    then have "build_rows srv s gm n i (m # ms) rows tr = (Inl e, tr @ evs1)"
      using e1(1) by (cases ?B) (auto simp: build_rows_Cons)
    then show ?thesis
      by (intro exI[of _ evs1]) (simp add: e1)
  next
    case (Inr r)
    then have B: "?B = (Inr r, tr @ evs1)" using e1(1) by (cases ?B) auto
    let ?mid = "[Print (progress_line i n (title r)), Sleep SLEEP_BETWEEN_REQUESTS]"
    let ?R = "build_rows srv s gm n (Suc i) ms (rows @ [r]) (tr @ evs1 @ ?mid)"
    have c: "build_rows srv s gm n i (m # ms) rows tr = ?R"
      using B by (simp add: build_rows_Cons)
    from Cons.IH[of "Suc i" "rows @ [r]" "tr @ evs1 @ ?mid"]
    obtain evs2 where e2: "snd ?R = tr @ evs1 @ ?mid @ evs2" "writes evs2 = []"
      "listed urls evs2 = []"
      "\<forall>rows'. fst ?R = Inr rows'
            \<longrightarrow> (\<exists>new. rows' = (rows @ [r]) @ new \<and> list_all2 (from_record gm) new ms)"
      by auto
    have fr: "from_record gm r m" using B by (rule build_row_from_record)
    have "\<exists>new. rows' = rows @ new \<and> list_all2 (from_record gm) new (m # ms)"
      if "fst ?R = Inr rows'" for rows'
    proof -
      from e2(4) that obtain new where "rows' = (rows @ [r]) @ new" "list_all2 (from_record gm) new ms"
        by blast
      then show ?thesis using fr by (intro exI[of _ "r # new"]) simp
    qed
    then show ?thesis
      by (intro exI[of _ "evs1 @ ?mid @ evs2"]) (simp add: c e1 e2(1,2,3))
  qed
qed


lemma genre_url_not_listing:
  "[Lit (BASE_URL @ ''/genre/movie/list'')] \<notin> set (listing_urls ENDPOINTS)"
  by (simp add: listing_urls_def ENDPOINTS_def)

lemma listing_urls_single: "\<forall>u\<in>set (listing_urls eps). length u = 1"
  by (simp add: listing_urls_def)

lemma main_trace:
  "\<exists>evs. snd (main API_KEY srv tr) = tr @ evs
     \<and> (\<forall>f rows. (f, rows) \<in> set (writes evs) \<longrightarrow>
           f = SAVE_FILE \<and> fst (main API_KEY srv tr) = Inr ()
           \<and> (\<exists>gm. list_all2 (from_record gm) rows
                      (first_seen (listed (listing_urls ENDPOINTS) evs)))
           \<and> (\<forall>m\<in>set (listed (listing_urls ENDPOINTS) evs). \<exists>k. movie_key m = Inr k))"
proof -
  let ?urls = "listing_urls ENDPOINTS"
  let ?bad = "API_KEY = None \<or> API_KEY = Some [] \<or> API_KEY = Some ''YOUR_API_KEY_HERE''"
  show ?thesis
  proof (cases ?bad)
    case True
    then have "main API_KEY srv tr = (Inr (), tr @ [Print key_error_line])"
      by (auto simp: main_def)
    then show ?thesis
      by (intro exI[of _ "[Print key_error_line]"]) simp
  next
    case False
    then obtain k where k: "API_KEY = Some k" "k \<noteq> []" "k \<noteq> ''YOUR_API_KEY_HERE''"
      by (cases API_KEY) auto
    let ?s = "create_session k"
    let ?Gn = "get_genres srv ?s (tr @ [Print genres_start_line])"
    from get_genres_trace[of ?urls srv ?s "tr @ [Print genres_start_line]",
           OF genre_url_not_listing]
    obtain evs1 where e1: "snd ?Gn = tr @ Print genres_start_line # evs1" "writes evs1 = []"
      "listed ?urls evs1 = []"
      by auto
    let ?tr1 = "tr @ Print genres_start_line # evs1"
    show ?thesis
    proof (cases "fst ?Gn")
      case (Inl e)
      then have "main API_KEY srv tr = (Inl e, ?tr1)"
        using e1(1) k by (cases ?Gn) (auto simp: main_def)
      then show ?thesis
        by (intro exI[of _ "Print genres_start_line # evs1"]) (simp add: e1(2))
    next
      case (Inr gm)
      then have Gn: "?Gn = (Inr gm, ?tr1)" using e1(1) by (cases ?Gn) auto
      let ?m1 = "Print (genres_done_line (length gm))"
      let ?C = "collect_movies srv ?s ENDPOINTS [] {} (tr @ Print genres_start_line # evs1 @ [?m1])"
      from collect_movies_trace[of ENDPOINTS ?urls srv ?s "[]" "{}"
             "tr @ Print genres_start_line # evs1 @ [?m1]"]
      obtain evs2 where e2:
        "snd ?C = tr @ Print genres_start_line # evs1 @ ?m1 # evs2" "writes evs2 = []"
        "\<forall>r. fst ?C = Inr r \<longrightarrow> dedup_movies (listed ?urls evs2) [] {} = Inr r"
        by auto
      let ?tr2 = "tr @ Print genres_start_line # evs1 @ ?m1 # evs2"
      show ?thesis
      proof (cases "fst ?C")
        case (Inl e)
        then have "main API_KEY srv tr = (Inl e, ?tr2)"
          using e2(1) k Gn by (cases ?C) (auto simp: main_def)
        then show ?thesis
          by (intro exI[of _ "Print genres_start_line # evs1 @ ?m1 # evs2"]) (simp add: e1(2) e2(2))
      next
        case (Inr p)
        obtain all_movies seen where p: "p = (all_movies, seen)" by (cases p)
        have C: "?C = (Inr (all_movies, seen), ?tr2)" using Inr p e2(1) by (cases ?C) auto
        from e2(3) Inr p have dd: "dedup_movies (listed ?urls evs2) [] {} = Inr (all_movies, seen)"
          by simp
        from dedup_first_seen[OF dd]
        have am: "all_movies = first_seen (listed ?urls evs2)"
          and keys: "\<forall>m\<in>set (listed ?urls evs2). \<exists>k. movie_key m = Inr k"
          by simp_all
        let ?m2 = "Print (total_line (length all_movies))"
        let ?B = "build_rows srv ?s gm (length all_movies) 1 all_movies []
                    (tr @ Print genres_start_line # evs1 @ ?m1 # evs2 @ [?m2])"
        from build_rows_trace[of ?urls srv ?s gm "length all_movies" 1
               all_movies "[]" "tr @ Print genres_start_line # evs1 @ ?m1 # evs2 @ [?m2]",
               OF listing_urls_single]
        obtain evs3 where e3:
          "snd ?B = tr @ Print genres_start_line # evs1 @ ?m1 # evs2 @ ?m2 # evs3"
          "writes evs3 = []" "listed ?urls evs3 = []"
          "\<forall>rows'. fst ?B = Inr rows'
              \<longrightarrow> (\<exists>new. rows' = [] @ new \<and> list_all2 (from_record gm) new all_movies)"
          by auto
        let ?tr3 = "tr @ Print genres_start_line # evs1 @ ?m1 # evs2 @ ?m2 # evs3"
        show ?thesis
        proof (cases "fst ?B")
          case (Inl e)
          then have "main API_KEY srv tr = (Inl e, ?tr3)"
            using e3(1) k Gn C by (cases ?B) (auto simp: main_def)
          then show ?thesis
            by (intro exI[of _ "Print genres_start_line # evs1 @ ?m1 # evs2 @ ?m2 # evs3"])
               (simp add: e1(2) e2(2) e3(2))
        next
          case (Inr rows)
          then have B: "?B = (Inr rows, ?tr3)" using e3(1) by (cases ?B) auto
          from e3(4) Inr have fr: "list_all2 (from_record gm) rows all_movies" by auto
          let ?end = "[WriteCsv SAVE_FILE rows, Print (saved_line (length rows))]"
          have M: "main API_KEY srv tr = (Inr (), ?tr3 @ ?end)"
            using k Gn C B by (simp add: main_def)
          let ?evs = "Print genres_start_line # evs1 @ ?m1 # evs2 @ ?m2 # evs3 @ ?end"
          have w: "writes ?evs = [(SAVE_FILE, rows)]"
            by (simp add: e1(2) e2(2) e3(2))
          have l: "listed ?urls ?evs = listed ?urls evs2"
            by (simp add: e1(3) e3(3))
          show ?thesis
            apply (intro exI[of _ ?evs])
            using M w l fr am keys by auto
        qed
      qed
    qed
  qed
qed


lemma writes_mem: "(f, rows) \<in> set (writes evs) \<longleftrightarrow> WriteCsv f rows \<in> set evs"
  by (induction evs rule: writes.induct) auto

lemma from_record_key:
  assumes "from_record gm r m" and "movie_key m = Inr k"
  shows "row_key r = Inr k"
proof -
  from assms(2) obtain i where i: "py_getitem m ''id'' = Inr i" "hashable i = Inr k"
    by (auto simp: movie_key_def split: sum.splits)
  then obtain kvs where "m = JObj kvs" "map_of kvs ''id'' = Some i"
    by (cases m) (auto split: option.splits)
  then have "py_get m ''id'' JNull = Inr i" by simp
  with assms(1) have "row_id r = i" by (simp add: from_record_def)
  with i(2) show ?thesis by (simp add: row_key_def)
qed

lemma rows_keys:
  assumes "list_all2 (from_record gm) rows ms" and "\<forall>m\<in>set ms. \<exists>k. movie_key m = Inr k"
  shows "map row_key rows = map movie_key ms"
  using assms
proof (induction rows ms rule: list_all2_induct)
  case Nil
  show ?case by simp
next
  case (Cons r rows m ms)
  then obtain k where "movie_key m = Inr k" by auto
  with Cons show ?case using from_record_key[of gm r m k] by simp
qed

lemma distinct_through: "distinct (map (\<lambda>x. f (g x)) xs) \<Longrightarrow> distinct (map g xs)"
  by (induction xs) auto

lemma count_distinct:
  "distinct (map f xs) \<Longrightarrow> k \<in> f ` set xs \<Longrightarrow> length (filter (\<lambda>x. f x = k) xs) = 1"
proof (induction xs)
  case Nil
  then show ?case by simp
next
  case (Cons x xs)
  show ?case
  proof (cases "f x = k")
    case True
    with Cons.prems have "k \<notin> f ` set xs" by auto
    then have "filter (\<lambda>x. f x = k) xs = []" by (auto simp: filter_empty_conv)
    with True show ?thesis by simp
  next
    case False
    with Cons show ?thesis by auto
  qed
qed

section \<open>The order of the run: proofs\<close>

lemma page_records_not_requested:
  "page_request s ep p \<notin> set (requests evs) \<Longrightarrow> page_records s ep evs p = []"
  by (simp add: page_records_def fetched_not_requested)

lemma pages_loop_listed:
  assumes "distinct ps" and "[Lit (BASE_URL @ ep)] \<in> set urls"
  shows "\<exists>evs. snd (pages_loop srv s ep ps acc tr) = tr @ evs
    \<and> set (requests evs) \<subseteq> page_request s ep ` set ps
    \<and> listed urls evs = concat (map (page_records s ep evs) ps)"
  using assms
proof (induction ps arbitrary: acc tr)
  case Nil
  show ?case by (intro exI[of _ "[]"]) simp
next
  case (Cons p0 rest)
  let ?U = "[Lit (BASE_URL @ ep)]"
  let ?sg = "safe_get srv s ?U (page_params p0) tr"
  let ?rq = "page_request s ep"
  let ?d = "fst ?sg"
  obtain evs1 n where e1: "snd ?sg = tr @ evs1" "1 \<le> n" "n \<le> 3"
      "requests evs1 = replicate n (?rq p0)" "fetched (?rq p0) evs1 = Some ?d"
      "listed urls evs1 = records_of ?d"
    using safe_get_trace[of srv s ?U "page_params p0" tr urls] Cons.prems(2)
    unfolding page_request_def by auto
  have set1: "set (requests evs1) = {?rq p0}"
    using e1(2,4) by auto
  have d: "distinct rest" and p0: "p0 \<notin> set rest"
    using Cons.prems(1) by auto
  have rest1: "page_records s ep evs1 p = []" if "p \<in> set rest" for p
    by (rule page_records_not_requested) (use that p0 set1 in auto)
  have stop: ?case if res: "snd (pages_loop srv s ep (p0 # rest) acc tr) = tr @ evs1"
  proof -
    have "concat (map (page_records s ep evs1) rest) = []"
      using rest1 by (induction rest) auto
    then have "listed urls evs1 = concat (map (page_records s ep evs1) (p0 # rest))"
      by (simp add: e1(6) page_records_def e1(5))
    then show ?thesis
      by (intro exI[of _ evs1]) (simp add: res set1)
  qed
  show ?case
  proof (cases "classify ?d")
    case Stop
    show ?thesis by (rule stop) (simp add: pages_loop_Cons Stop e1)
  next
    case (Fail e)
    show ?thesis by (rule stop) (simp add: pages_loop_Cons Fail e1)
  next
    case (Items xs)
    let ?mid = "[Print (page_line ep p0 (length xs)), Sleep SLEEP_BETWEEN_REQUESTS]"
    let ?tr2 = "tr @ evs1 @ ?mid"
    let ?R = "pages_loop srv s ep rest (acc @ xs) ?tr2"
    have res: "pages_loop srv s ep (p0 # rest) acc tr = ?R"
      by (simp add: pages_loop_Cons Items e1)
    from Cons.IH[OF d Cons.prems(2), of "acc @ xs" ?tr2]
    obtain evs2 where ih: "snd ?R = ?tr2 @ evs2"
      "set (requests evs2) \<subseteq> ?rq ` set rest"
      "listed urls evs2 = concat (map (page_records s ep evs2) rest)"
      by blast
    let ?evs = "evs1 @ ?mid @ evs2"
    have notin2: "?rq p0 \<notin> set (requests evs2)"
      using ih(2) p0 by auto
    have f0: "fetched (?rq p0) ?evs = Some ?d"
    proof -
      have a: "?rq p0 \<notin> set (requests (?mid @ evs2))"
        using notin2 by simp
      show ?thesis
        by (rule trans[OF fetched_append_left[OF a] e1(5)])
    qed
    have f1: "fetched (?rq p) ?evs = fetched (?rq p) evs2" if "p \<noteq> p0" for p
    proof -
      have a: "?rq p \<notin> set (requests (evs1 @ ?mid))"
        using that by (simp add: set1)
      have "fetched (?rq p) ((evs1 @ ?mid) @ evs2) = fetched (?rq p) evs2"
        by (rule fetched_append_right[OF a])
      then show ?thesis by (simp only: append_assoc)
    qed
    have r0: "page_records s ep ?evs p0 = records_of ?d"
      unfolding page_records_def f0 by simp
    have r1: "page_records s ep ?evs p = page_records s ep evs2 p" if "p \<in> set rest" for p
    proof -
      have "p \<noteq> p0" using that p0 by auto
      from f1[OF this] show ?thesis unfolding page_records_def by (rule arg_cong)
    qed
    have "map (page_records s ep ?evs) rest = map (page_records s ep evs2) rest"
      using r1 by (intro map_cong) auto
    then have m: "concat (map (page_records s ep ?evs) rest)
        = concat (map (page_records s ep evs2) rest)"
      by (rule arg_cong)
    have l: "listed urls ?evs = concat (map (page_records s ep ?evs) (p0 # rest))"
      using r0 m by (simp add: e1(6) ih(3))
    have c1: "snd (pages_loop srv s ep (p0 # rest) acc tr) = tr @ ?evs"
      by (simp add: res ih(1))
    have c2: "set (requests ?evs) \<subseteq> ?rq ` set (p0 # rest)"
      using set1 ih(2) by auto
    show ?thesis
      by (intro exI[of _ ?evs]) (use c1 c2 l in blast)
  qed
qed


lemma page_request_eq [simp]:
  "page_request s ep p = page_request s' ep' p' \<longleftrightarrow> s = s' \<and> ep = ep' \<and> p = p'"
  by (auto simp: page_request_def page_params_def)

lemma fetched_middle:
  "rq \<notin> set (requests a) \<Longrightarrow> rq \<notin> set (requests c) \<Longrightarrow> fetched rq (a @ b @ c) = fetched rq b"
  by (simp add: fetched_def not_requested)

lemma page_records_middle:
  assumes "page_request s ep p \<notin> set (requests a)" and "page_request s ep p \<notin> set (requests c)"
  shows "page_records s ep (a @ b @ c) p = page_records s ep b p"
  unfolding page_records_def fetched_middle[OF assms] ..

lemma listing_sequence_middle:
  assumes "\<forall>ep\<in>set eps. \<forall>p. page_request s ep p \<notin> set (requests a)"
    and "\<forall>ep\<in>set eps. \<forall>p. page_request s ep p \<notin> set (requests c)"
  shows "listing_sequence s eps (a @ b @ c) = listing_sequence s eps b"
proof -
  have "page_records s ep (a @ b @ c) = page_records s ep b" if "ep \<in> set eps" for ep
    using assms that by (intro ext page_records_middle) auto
  then have "map (\<lambda>ep. concat (map (page_records s ep (a @ b @ c)) [1..PAGES_PER_ENDPOINT])) eps
      = map (\<lambda>ep. concat (map (page_records s ep b) [1..PAGES_PER_ENDPOINT])) eps"
    by (intro map_cong) auto
  then show ?thesis unfolding listing_sequence_def by (rule arg_cong)
qed

lemma listing_sequence_none:
  assumes "\<forall>ep\<in>set eps. \<forall>p. page_request s ep p \<notin> set (requests evs)"
  shows "listing_sequence s eps evs = []"
proof -
  have "page_records s ep evs p = []" if "ep \<in> set eps" for ep p
    using assms that by (intro page_records_not_requested) auto
  then show ?thesis
    unfolding listing_sequence_def by (induction eps) auto
qed

lemma collect_movies_run:
  assumes "distinct eps" and "set (listing_urls eps) \<subseteq> set urls"
  shows "\<exists>evs. snd (collect_movies srv s eps all_movies seen tr) = tr @ evs
     \<and> (\<forall>rq\<in>set (requests evs). \<exists>ep\<in>set eps. \<exists>p. rq = page_request s ep p)
     \<and> listed urls evs = listing_sequence s eps evs"
  using assms
proof (induction eps arbitrary: all_movies seen tr)
  case Nil
  show ?case by (intro exI[of _ "[]"]) (simp add: listing_sequence_def)
next
  case (Cons ep rest)
  let ?P = "Print (endpoint_line ep)"
  let ?G = "get_movies_from_endpoint srv s ep PAGES_PER_ENDPOINT (tr @ [?P])"
  let ?C = "collect_movies srv s (ep # rest) all_movies seen tr"
  have u: "[Lit (BASE_URL @ ep)] \<in> set urls" and r: "set (listing_urls rest) \<subseteq> set urls"
    and d: "distinct rest" and ep: "ep \<notin> set rest"
    using Cons.prems by (auto simp: listing_urls_def)
  from pages_loop_listed[of "[1..PAGES_PER_ENDPOINT]" ep urls srv s "[]" "tr @ [?P]",
         OF distinct_upto u]
  obtain evs1 where e1: "snd ?G = tr @ ?P # evs1"
    "set (requests evs1) \<subseteq> page_request s ep ` set [1..PAGES_PER_ENDPOINT]"
    "listed urls evs1 = concat (map (page_records s ep evs1) [1..PAGES_PER_ENDPOINT])"
    unfolding get_movies_from_endpoint_def by auto
  have "\<exists>evs2. snd ?C = tr @ ?P # evs1 @ evs2
     \<and> (\<forall>rq\<in>set (requests evs2). \<exists>ep\<in>set rest. \<exists>p. rq = page_request s ep p)
     \<and> listed urls evs2 = listing_sequence s rest evs2"
  proof (cases "fst ?G")
    case (Inl e)
    then have "snd ?C = tr @ ?P # evs1"
      using e1(1) by (cases ?G) (auto simp: collect_movies_Cons)
    then show ?thesis
      by (intro exI[of _ "[]"]) (simp add: listing_sequence_none)
  next
    case (Inr movies)
    then have G: "?G = (Inr movies, tr @ ?P # evs1)" using e1(1) by (cases ?G) auto
    show ?thesis
    proof (cases "dedup_movies movies all_movies seen")
      case (Inl e)
      then have "snd ?C = tr @ ?P # evs1"
        using G by (simp add: collect_movies_Cons)
      then show ?thesis
        by (intro exI[of _ "[]"]) (simp add: listing_sequence_none)
    next
      case (Inr p)
      obtain a b where p: "p = (a, b)" by (cases p)
      have c: "?C = collect_movies srv s rest a b (tr @ ?P # evs1)"
        using G Inr p by (simp add: collect_movies_Cons)
      from Cons.IH[OF d r, of a b "tr @ ?P # evs1"]
      obtain evs2 where "snd (collect_movies srv s rest a b (tr @ ?P # evs1)) = (tr @ ?P # evs1) @ evs2"
        "\<forall>rq\<in>set (requests evs2). \<exists>ep\<in>set rest. \<exists>p. rq = page_request s ep p"
        "listed urls evs2 = listing_sequence s rest evs2"
        by blast
      then show ?thesis
        by (intro exI[of _ evs2]) (simp add: c)
    qed
  qed
  then obtain evs2 where e2: "snd ?C = tr @ ?P # evs1 @ evs2"
    "\<forall>rq\<in>set (requests evs2). \<exists>ep\<in>set rest. \<exists>p. rq = page_request s ep p"
    "listed urls evs2 = listing_sequence s rest evs2"
    by blast
  let ?evs = "[?P] @ evs1 @ evs2"
  have n2: "page_request s ep p \<notin> set (requests evs2)" for p
    using e2(2) ep by auto
  have n1: "page_request s ep' p \<notin> set (requests ([?P] @ evs1))" if "ep' \<in> set rest" for ep' p
    using e1(2) ep that by auto
  have h: "page_records s ep ?evs = page_records s ep evs1"
    by (intro ext page_records_middle) (simp_all add: n2)
  have "listing_sequence s rest (([?P] @ evs1) @ evs2 @ []) = listing_sequence s rest evs2"
    by (rule listing_sequence_middle) (use n1 in auto)
  then have t: "listing_sequence s rest ?evs = listing_sequence s rest evs2" by simp
  have "listing_sequence s (ep # rest) ?evs
      = concat (map (page_records s ep ?evs) [1..PAGES_PER_ENDPOINT]) @ listing_sequence s rest ?evs"
    by (simp add: listing_sequence_def)
  also have "\<dots> = listed urls evs1 @ listed urls evs2"
    unfolding h t by (simp add: e1(3) e2(3))
  finally have l: "listed urls ?evs = listing_sequence s (ep # rest) ?evs" by simp
  have rq: "\<forall>rq\<in>set (requests ?evs). \<exists>ep'\<in>set (ep # rest). \<exists>p. rq = page_request s ep' p"
    using e1(2) e2(2) by auto
  show ?case
    by (intro exI[of _ ?evs]) (use e2(1) l rq in simp)
qed


lemma credits_request_eq [simp]:
  "credits_request s a = credits_request s' b \<longleftrightarrow> s = s' \<and> a = b"
  by (auto simp: credits_request_def credits_url_def)

lemma page_not_genre [simp]: "page_request s ep p \<noteq> genre_request s'"
  by (simp add: page_request_def genre_request_def page_params_def)

lemma page_not_credits [simp]: "page_request s ep p \<noteq> credits_request s' a"
  by (simp add: page_request_def credits_request_def page_params_def)

lemma credits_not_genre [simp]: "credits_request s a \<noteq> genre_request s'"
  by (simp add: credits_request_def genre_request_def credits_url_def)

lemma credits_not_page [simp]: "credits_request s' a \<noteq> page_request s ep p"
  by (simp add: page_request_def credits_request_def page_params_def)

lemma get_genres_run:
  "\<exists>evs. snd (get_genres srv s tr) = tr @ evs \<and> set (requests evs) \<subseteq> {genre_request s}"
proof -
  let ?sg = "safe_get srv s [Lit (BASE_URL @ ''/genre/movie/list'')] JNull tr"
  have "snd (get_genres srv s tr) = snd ?sg"
    by (simp add: get_genres_def split: prod.splits sum.splits bool.splits)
  with safe_get_trace[of srv s "[Lit (BASE_URL @ ''/genre/movie/list'')]" JNull tr "[]"]
  show ?thesis by (auto simp: genre_request_def)
qed

lemma get_movie_credits_eq:
  "get_movie_credits srv s mid tr =
     (credits_of (fst (safe_get srv s (credits_url mid) JNull tr)),
      snd (safe_get srv s (credits_url mid) JNull tr))"
  by (simp add: get_movie_credits_def credits_of_def split: prod.splits)

lemma build_row_credits:
  "build_row srv s gm m tr = (Inr r, tr') \<Longrightarrow>
     py_get m ''id'' JNull = Inr (row_id r)
     \<and> get_movie_credits srv s (row_id r) tr = (Inr (top_cast r, director r), tr')"
  by (auto simp: build_row_def split: sum.splits prod.splits)

lemma build_row_snd:
  "snd (build_row srv s gm m tr) = tr
     \<or> snd (build_row srv s gm m tr) = snd (get_movie_credits srv s (record_id m) tr)"
  by (auto simp: build_row_def record_id_def split: sum.splits prod.splits)

lemma build_row_run:
  "\<exists>evs. snd (build_row srv s gm m tr) = tr @ evs
     \<and> set (requests evs) \<subseteq> {credits_request s (record_id m)}
     \<and> (\<forall>r. fst (build_row srv s gm m tr) = Inr r \<longrightarrow>
            row_id r = record_id m \<and> from_record gm r m \<and> credits_from s evs r)"
proof -
  let ?B = "build_row srv s gm m tr"
  let ?sg = "safe_get srv s (credits_url (record_id m)) JNull tr"
  from safe_get_trace[of srv s "credits_url (record_id m)" JNull tr "[]"]
  obtain evs1 n where e1: "snd ?sg = tr @ evs1" "1 \<le> n"
    "requests evs1 = replicate n (credits_request s (record_id m))"
    "fetched (credits_request s (record_id m)) evs1 = Some (fst ?sg)"
    unfolding credits_request_def by auto
  show ?thesis
  proof (cases "fst ?B")
    case (Inl e)
    from build_row_snd[of srv s gm m tr] show ?thesis
    proof
      assume "snd ?B = tr"
      then show ?thesis by (intro exI[of _ "[]"]) (simp add: Inl)
    next
      assume "snd ?B = snd (get_movie_credits srv s (record_id m) tr)"
      then have "snd ?B = tr @ evs1" by (simp add: get_movie_credits_eq e1(1))
      then show ?thesis using e1(3) by (intro exI[of _ evs1]) (auto simp: Inl)
    qed
  next
    case (Inr r)
    then have B: "?B = (Inr r, snd ?B)" by (cases ?B) auto
    from build_row_credits[OF B]
    have id: "py_get m ''id'' JNull = Inr (row_id r)"
      and cr: "get_movie_credits srv s (row_id r) tr = (Inr (top_cast r, director r), snd ?B)"
      by simp_all
    from id have rid: "row_id r = record_id m" by (simp add: record_id_def)
    from cr have c: "credits_of (fst ?sg) = Inr (top_cast r, director r)" and t: "snd ?B = tr @ evs1"
      unfolding rid by (simp_all add: get_movie_credits_eq e1(1))
    have "credits_from s evs1 r"
      using e1(4) c by (simp add: credits_from_def rid credits_request_def)
    moreover have "from_record gm r m" using B by (rule build_row_from_record)
    ultimately show ?thesis
      using t rid e1(3) by (intro exI[of _ evs1]) (auto simp: Inr)
  qed
qed

lemma credits_from_middle:
  assumes "credits_request s (row_id r) \<notin> set (requests a)"
    and "credits_request s (row_id r) \<notin> set (requests c)"
  shows "credits_from s (a @ b @ c) r = credits_from s b r"
  using fetched_middle[OF assms, of b] by (simp add: credits_from_def credits_request_def)

lemma build_rows_run:
  assumes "distinct (map record_id ms)"
  shows "\<exists>evs. snd (build_rows srv s gm n i ms rows tr) = tr @ evs
      \<and> set (requests evs) \<subseteq> (\<lambda>m. credits_request s (record_id m)) ` set ms
      \<and> (\<forall>rows'. fst (build_rows srv s gm n i ms rows tr) = Inr rows'
            \<longrightarrow> (\<exists>new. rows' = rows @ new
                  \<and> list_all2 (\<lambda>r m. row_id r = record_id m \<and> from_record gm r m
                                     \<and> credits_from s evs r) new ms))"
  using assms
proof (induction ms arbitrary: i rows tr)
  case Nil
  show ?case by (intro exI[of _ "[]"]) simp
next
  case (Cons m ms)
  let ?B = "build_row srv s gm m tr"
  let ?crq = "\<lambda>m. credits_request s (record_id m)"
  have d: "distinct (map record_id ms)" and nm: "record_id m \<notin> record_id ` set ms"
    using Cons.prems by auto
  from build_row_run[of srv s gm m tr]
  obtain evs1 where e1: "snd ?B = tr @ evs1" "set (requests evs1) \<subseteq> {?crq m}"
    "\<forall>r. fst ?B = Inr r \<longrightarrow> row_id r = record_id m \<and> from_record gm r m \<and> credits_from s evs1 r"
    by blast
  show ?case
  proof (cases "fst ?B")
    case (Inl e)
    then have "build_rows srv s gm n i (m # ms) rows tr = (Inl e, tr @ evs1)"
      using e1(1) by (cases ?B) (auto simp: build_rows_Cons)
    then show ?thesis
      using e1(2) by (intro exI[of _ evs1]) auto
  next
    case (Inr r)
    then have B: "?B = (Inr r, tr @ evs1)" using e1(1) by (cases ?B) auto
    from e1(3) Inr have r: "row_id r = record_id m" "from_record gm r m" "credits_from s evs1 r"
      by simp_all
    let ?mid = "[Print (progress_line i n (title r)), Sleep SLEEP_BETWEEN_REQUESTS]"
    let ?R = "build_rows srv s gm n (Suc i) ms (rows @ [r]) (tr @ evs1 @ ?mid)"
    have c: "build_rows srv s gm n i (m # ms) rows tr = ?R"
      using B by (simp add: build_rows_Cons)
    from Cons.IH[OF d, of "Suc i" "rows @ [r]" "tr @ evs1 @ ?mid"]
    obtain evs2 where e2: "snd ?R = tr @ evs1 @ ?mid @ evs2"
      "set (requests evs2) \<subseteq> ?crq ` set ms"
      "\<forall>rows'. fst ?R = Inr rows'
            \<longrightarrow> (\<exists>new. rows' = (rows @ [r]) @ new
                  \<and> list_all2 (\<lambda>r m. row_id r = record_id m \<and> from_record gm r m
                                     \<and> credits_from s evs2 r) new ms)"
      by auto
    let ?evs = "evs1 @ ?mid @ evs2"
    have n2: "?crq m \<notin> set (requests evs2)"
      using e2(2) nm by auto
    have head: "credits_from s ?evs r"
    proof -
      have "credits_from s ([] @ evs1 @ (?mid @ evs2)) r = credits_from s evs1 r"
        by (rule credits_from_middle) (use n2 r(1) in simp_all)
      then show ?thesis using r(3) by simp
    qed
    have tail: "credits_from s ?evs r'"
      if "row_id r' = record_id m'" "m' \<in> set ms" "credits_from s evs2 r'" for r' m'
    proof -
      have "record_id m' \<in> record_id ` set ms" using that(2) by (rule imageI)
      with nm have "record_id m' \<noteq> record_id m" by metis
      then have "credits_request s (row_id r') \<notin> set (requests (evs1 @ ?mid))"
        using e1(2) that(1) by auto
      then have "credits_from s ((evs1 @ ?mid) @ evs2 @ []) r' = credits_from s evs2 r'"
        by (intro credits_from_middle) simp_all
      then show ?thesis using that(3) by simp
    qed
    have "\<exists>new. rows' = rows @ new
        \<and> list_all2 (\<lambda>r m. row_id r = record_id m \<and> from_record gm r m \<and> credits_from s ?evs r)
             new (m # ms)"
      if "fst ?R = Inr rows'" for rows'
    proof -
      from e2(3) that obtain new where new: "rows' = (rows @ [r]) @ new"
        "list_all2 (\<lambda>r m. row_id r = record_id m \<and> from_record gm r m \<and> credits_from s evs2 r) new ms"
        by blast
      from new(2)
      have "list_all2 (\<lambda>r m. row_id r = record_id m \<and> from_record gm r m \<and> credits_from s ?evs r) new ms"
        by (rule list.rel_mono_strong) (use tail in blast)
      then show ?thesis
        using new(1) r(1,2) head by (intro exI[of _ "r # new"]) simp
    qed
    moreover have "set (requests ?evs) \<subseteq> ?crq ` set (m # ms)"
      using e1(2) e2(2) by auto
    ultimately show ?thesis
      by (intro exI[of _ ?evs]) (simp add: c e2(1))
  qed
qed


lemma distinct_endpoints: "distinct ENDPOINTS"
  by (simp add: ENDPOINTS_def)

lemma keyed_record_id: "movie_key m = Inr k \<Longrightarrow> hashable (record_id m) = Inr k"
proof -
  assume a: "movie_key m = Inr k"
  then obtain i where i: "py_getitem m ''id'' = Inr i" "hashable i = Inr k"
    by (auto simp: movie_key_def split: sum.splits)
  then obtain kvs where "m = JObj kvs" "map_of kvs ''id'' = Some i"
    by (cases m) (auto split: option.splits)
  then have "record_id m = i" by (simp add: record_id_def)
  with i(2) show ?thesis by simp
qed

lemma distinct_record_ids:
  assumes "\<forall>m\<in>set ms. \<exists>k. movie_key m = Inr k" and "distinct (map movie_key ms)"
  shows "distinct (map record_id ms)"
proof -
  have "movie_key m = hashable (record_id m)" if "m \<in> set ms" for m
  proof -
    from assms(1) that obtain k where "movie_key m = Inr k" by blast
    then show ?thesis using keyed_record_id[of m k] by simp
  qed
  then have "map movie_key ms = map (\<lambda>m. hashable (record_id m)) ms"
    by (intro map_cong) auto
  with assms(2) have "distinct (map (\<lambda>m. hashable (record_id m)) ms)" by simp
  then show ?thesis by (rule distinct_through)
qed

lemma main_run:
  "\<exists>evs. snd (main API_KEY srv tr) = tr @ evs
     \<and> (\<forall>f rows. (f, rows) \<in> set (writes evs) \<longrightarrow>
           (\<exists>k gm. API_KEY = Some k
              \<and> fst (get_genres srv (create_session k) (tr @ [Print genres_start_line])) = Inr gm
              \<and> listed (listing_urls ENDPOINTS) evs = listing_sequence (create_session k) ENDPOINTS evs
              \<and> list_all2 (\<lambda>r m. from_record gm r m \<and> credits_from (create_session k) evs r) rows
                  (first_seen (listing_sequence (create_session k) ENDPOINTS evs))))"
proof -
  let ?urls = "listing_urls ENDPOINTS"
  let ?bad = "API_KEY = None \<or> API_KEY = Some [] \<or> API_KEY = Some ''YOUR_API_KEY_HERE''"
  show ?thesis
  proof (cases ?bad)
    case True
    then have "main API_KEY srv tr = (Inr (), tr @ [Print key_error_line])"
      by (auto simp: main_def)
    then show ?thesis
      by (intro exI[of _ "[Print key_error_line]"]) simp
  next
    case False
    then obtain k where k: "API_KEY = Some k" "k \<noteq> []" "k \<noteq> ''YOUR_API_KEY_HERE''"
      by (cases API_KEY) auto
    let ?s = "create_session k"
    let ?P0 = "Print genres_start_line"
    let ?Gn = "get_genres srv ?s (tr @ [?P0])"
    from get_genres_trace[of ?urls srv ?s "tr @ [?P0]", OF genre_url_not_listing]
    obtain evs1 where e1: "snd ?Gn = tr @ ?P0 # evs1" "writes evs1 = []"
      by auto
    from get_genres_run[of srv ?s "tr @ [?P0]"] e1(1)
    have q1: "set (requests evs1) \<subseteq> {genre_request ?s}" by auto
    show ?thesis
    proof (cases "fst ?Gn")
      case (Inl e)
      then have "main API_KEY srv tr = (Inl e, tr @ ?P0 # evs1)"
        using e1(1) k by (cases ?Gn) (auto simp: main_def)
      then show ?thesis
        by (intro exI[of _ "?P0 # evs1"]) (simp add: e1(2))
    next
      case (Inr gm)
      then have Gn: "?Gn = (Inr gm, tr @ ?P0 # evs1)" using e1(1) by (cases ?Gn) auto
      let ?m1 = "Print (genres_done_line (length gm))"
      let ?C = "collect_movies srv ?s ENDPOINTS [] {} (tr @ ?P0 # evs1 @ [?m1])"
      from collect_movies_trace[of ENDPOINTS ?urls srv ?s "[]" "{}" "tr @ ?P0 # evs1 @ [?m1]"]
      obtain evs2 where e2: "snd ?C = tr @ ?P0 # evs1 @ ?m1 # evs2" "writes evs2 = []"
        "\<forall>r. fst ?C = Inr r \<longrightarrow> dedup_movies (listed ?urls evs2) [] {} = Inr r"
        by auto
      from collect_movies_run[OF distinct_endpoints, of ?urls srv ?s "[]" "{}"
             "tr @ ?P0 # evs1 @ [?m1]"] e2(1)
      have q2: "\<forall>rq\<in>set (requests evs2). \<exists>ep\<in>set ENDPOINTS. \<exists>p. rq = page_request ?s ep p"
        and l2: "listed ?urls evs2 = listing_sequence ?s ENDPOINTS evs2"
        by auto
      show ?thesis
      proof (cases "fst ?C")
        case (Inl e)
        then have "main API_KEY srv tr = (Inl e, tr @ ?P0 # evs1 @ ?m1 # evs2)"
          using e2(1) k Gn by (cases ?C) (auto simp: main_def)
        then show ?thesis
          by (intro exI[of _ "?P0 # evs1 @ ?m1 # evs2"]) (simp add: e1(2) e2(2))
      next
        case (Inr p)
        obtain all_movies seen where p: "p = (all_movies, seen)" by (cases p)
        have C: "?C = (Inr (all_movies, seen), tr @ ?P0 # evs1 @ ?m1 # evs2)"
          using Inr p e2(1) by (cases ?C) auto
        from e2(3) Inr p have dd: "dedup_movies (listed ?urls evs2) [] {} = Inr (all_movies, seen)"
          by simp
        from dedup_first_seen[OF dd]
        have am: "all_movies = first_seen (listed ?urls evs2)"
          and keys: "\<forall>m\<in>set (listed ?urls evs2). \<exists>k. movie_key m = Inr k"
          by simp_all
        have "\<forall>m\<in>set all_movies. \<exists>k. movie_key m = Inr k"
          using keys set_first_seen[of "listed ?urls evs2"] unfolding am by blast
        moreover have "distinct (map movie_key all_movies)"
          unfolding am by (rule distinct_first_seen)
        ultimately have di: "distinct (map record_id all_movies)"
          by (rule distinct_record_ids)
        let ?m2 = "Print (total_line (length all_movies))"
        let ?B = "build_rows srv ?s gm (length all_movies) 1 all_movies []
                    (tr @ ?P0 # evs1 @ ?m1 # evs2 @ [?m2])"
        from build_rows_trace[of ?urls srv ?s gm "length all_movies" 1
               all_movies "[]" "tr @ ?P0 # evs1 @ ?m1 # evs2 @ [?m2]", OF listing_urls_single]
        obtain evs3 where e3: "snd ?B = tr @ ?P0 # evs1 @ ?m1 # evs2 @ ?m2 # evs3"
          "writes evs3 = []" "listed ?urls evs3 = []"
          by auto
        from build_rows_run[OF di, of srv ?s gm "length all_movies" 1 "[]"
               "tr @ ?P0 # evs1 @ ?m1 # evs2 @ [?m2]"] e3(1)
        have q3: "set (requests evs3) \<subseteq> (\<lambda>m. credits_request ?s (record_id m)) ` set all_movies"
          and r3: "\<forall>rows'. fst ?B = Inr rows'
              \<longrightarrow> list_all2 (\<lambda>r m. row_id r = record_id m \<and> from_record gm r m
                                     \<and> credits_from ?s evs3 r) rows' all_movies"
          by auto
        show ?thesis
        proof (cases "fst ?B")
          case (Inl e)
          then have "main API_KEY srv tr = (Inl e, tr @ ?P0 # evs1 @ ?m1 # evs2 @ ?m2 # evs3)"
            using e3(1) k Gn C by (cases ?B) (auto simp: main_def)
          then show ?thesis
            by (intro exI[of _ "?P0 # evs1 @ ?m1 # evs2 @ ?m2 # evs3"])
               (simp add: e1(2) e2(2) e3(2))
        next
          case (Inr rows)
          then have B: "?B = (Inr rows, tr @ ?P0 # evs1 @ ?m1 # evs2 @ ?m2 # evs3)"
            using e3(1) by (cases ?B) auto
          let ?end = "[WriteCsv SAVE_FILE rows, Print (saved_line (length rows))]"
          let ?evs = "?P0 # evs1 @ ?m1 # evs2 @ ?m2 # evs3 @ ?end"
          let ?a = "?P0 # evs1 @ [?m1]"
          let ?c = "?m2 # evs3 @ ?end"
          let ?a' = "?P0 # evs1 @ ?m1 # evs2 @ [?m2]"
          have M: "main API_KEY srv tr = (Inr (), tr @ ?evs)"
            using k Gn C B by (simp add: main_def)
          have w: "writes ?evs = [(SAVE_FILE, rows)]"
            by (simp add: e1(2) e2(2) e3(2))
          have l: "listed ?urls ?evs = listed ?urls evs2"
          proof -
            from get_genres_trace[of ?urls srv ?s "tr @ [?P0]", OF genre_url_not_listing] e1(1)
            have "listed ?urls evs1 = []" by auto
            then show ?thesis by (simp add: e3(3))
          qed
          have "listing_sequence ?s ENDPOINTS (?a @ evs2 @ ?c) = listing_sequence ?s ENDPOINTS evs2"
          proof (rule listing_sequence_middle)
            show "\<forall>ep\<in>set ENDPOINTS. \<forall>p. page_request ?s ep p \<notin> set (requests ?a)"
              using q1 by auto
            show "\<forall>ep\<in>set ENDPOINTS. \<forall>p. page_request ?s ep p \<notin> set (requests ?c)"
              using q3 by auto
          qed
          then have ls: "listing_sequence ?s ENDPOINTS ?evs = listing_sequence ?s ENDPOINTS evs2"
            by simp
          have cf: "credits_from ?s ?evs r" if "credits_from ?s evs3 r" for r
          proof -
            have "credits_from ?s (?a' @ evs3 @ ?end) r = credits_from ?s evs3 r"
            proof (rule credits_from_middle)
              show "credits_request ?s (row_id r) \<notin> set (requests ?a')"
                using q1 q2 by auto
              show "credits_request ?s (row_id r) \<notin> set (requests ?end)"
                by simp
            qed
            then show ?thesis using that by simp
          qed
          from r3 Inr
          have "list_all2 (\<lambda>r m. row_id r = record_id m \<and> from_record gm r m
                                     \<and> credits_from ?s evs3 r) rows all_movies"
            by simp
          then have "list_all2 (\<lambda>r m. from_record gm r m \<and> credits_from ?s ?evs r) rows all_movies"
            by (rule list.rel_mono_strong) (use cf in blast)
          moreover have eq: "first_seen (listing_sequence ?s ENDPOINTS ?evs) = all_movies"
          proof -
            have "first_seen (listing_sequence ?s ENDPOINTS ?evs)
                = first_seen (listing_sequence ?s ENDPOINTS evs2)"
              by (rule arg_cong[OF ls])
            also have "\<dots> = first_seen (listed ?urls evs2)"
              by (rule arg_cong[OF l2[symmetric]])
            also have "\<dots> = all_movies" by (rule am[symmetric])
            finally show ?thesis .
          qed
          ultimately have fr: "list_all2 (\<lambda>r m. from_record gm r m \<and> credits_from ?s ?evs r) rows
              (first_seen (listing_sequence ?s ENDPOINTS ?evs))"
            by (simp only:)
          have ll: "listed ?urls ?evs = listing_sequence ?s ENDPOINTS ?evs"
            by (rule trans[OF l trans[OF l2 ls[symmetric]]])
          have g: "fst ?Gn = Inr gm" using Gn by simp
          show ?thesis
            apply (intro exI[of _ ?evs])
            using M w k(1) g ll fr by auto
        qed
      qed
    qed
  qed
qed


lemmas run_simps = main_def create_session_def get_genres_def safe_get_unfold attempts_step Let_def
  succeeded_def payload_def BASE_URL_def ENDPOINTS_def PAGES_PER_ENDPOINT_def
  get_movies_from_endpoint_def upto_rec1 pages_loop_Cons classify_def page_params_def
  credits_url_def build_rows_Cons collect_movies_Cons build_row_def genres_of_def poster_of_def
  get_movie_credits_def
  extract_credits_def py_join_def IMAGE_BASE_def SAVE_FILE_def dedup_movies_Cons movie_key_def

section \<open>Claims\<close>

text \<open>
  C1. In every run, the rows of a written table have pairwise different identifiers,
  also as Python compares them (\<open>row_key\<close>: \<^verbatim>\<open>1\<close> and \<^verbatim>\<open>1.0\<close> are the same identifier); and
  every record that a listing endpoint delivered during the run, on whatever endpoint
  or page, has exactly one row with its identifier.
\<close>

theorem output_ids_unique:
  "\<exists>evs. snd (main API_KEY srv tr) = tr @ evs
     \<and> (\<forall>f rows. WriteCsv f rows \<in> set evs \<longrightarrow>
           distinct (map row_key rows) \<and> distinct (map row_id rows)
           \<and> (\<forall>m\<in>set (listed (listing_urls ENDPOINTS) evs).
                 length (filter (\<lambda>r. row_key r = movie_key m) rows) = 1))"
proof -
  let ?L = "\<lambda>evs. listed (listing_urls ENDPOINTS) evs"
  from main_trace[of API_KEY srv tr]
  obtain evs where e: "snd (main API_KEY srv tr) = tr @ evs"
    and w: "\<forall>f rows. (f, rows) \<in> set (writes evs) \<longrightarrow>
           f = SAVE_FILE \<and> fst (main API_KEY srv tr) = Inr ()
           \<and> (\<exists>gm. list_all2 (from_record gm) rows (first_seen (?L evs)))
           \<and> (\<forall>m\<in>set (?L evs). \<exists>k. movie_key m = Inr k)"
    by blast
  have "distinct (map row_key rows) \<and> distinct (map row_id rows)
      \<and> (\<forall>m\<in>set (?L evs). length (filter (\<lambda>r. row_key r = movie_key m) rows) = 1)"
    if "WriteCsv f rows \<in> set evs" for f rows
  proof -
    from that have "(f, rows) \<in> set (writes evs)" by (simp add: writes_mem)
    with w obtain gm where fr: "list_all2 (from_record gm) rows (first_seen (?L evs))"
      and ks: "\<forall>m\<in>set (?L evs). \<exists>k. movie_key m = Inr k"
      by blast
    have "\<forall>m\<in>set (first_seen (?L evs)). \<exists>k. movie_key m = Inr k"
      using ks set_first_seen[of "?L evs"] by blast
    with fr have keys: "map row_key rows = map movie_key (first_seen (?L evs))"
      by (rule rows_keys)
    then have d: "distinct (map row_key rows)"
      by (simp add: distinct_first_seen)
    then have d': "distinct (map row_id rows)"
      unfolding row_key_def by (rule distinct_through)
    have "length (filter (\<lambda>r. row_key r = movie_key m) rows) = 1" if "m \<in> set (?L evs)" for m
    proof -
      have "movie_key m \<in> movie_key ` set (first_seen (?L evs))"
        using that by (simp add: keys_first_seen)
      also have "\<dots> = set (map movie_key (first_seen (?L evs)))" by simp
      also have "\<dots> = row_key ` set rows" using keys by (metis set_map)
      finally show ?thesis using d by (intro count_distinct)
    qed
    with d d' show ?thesis by blast
  qed
  with e show ?thesis by blast
qed

theorem output_ids_unique_witness:
  "WriteCsv SAVE_FILE two_lists_rows \<in> set (snd (main (Some ''k'') two_lists_server []))
   \<and> distinct (map row_key two_lists_rows)
   \<and> JObj [(''id'', JInt 1), (''title'', JStr ''second'')]
       \<in> set (listed (listing_urls ENDPOINTS) (snd (main (Some ''k'') two_lists_server [])))
   \<and> length (filter (\<lambda>r. row_key r = movie_key (JObj [(''id'', JInt 1), (''title'', JStr ''second'')]))
               two_lists_rows) = 1"
proof -
  let ?M = "main (Some ''k'') two_lists_server []"
  let ?m = "JObj [(''id'', JInt 1), (''title'', JStr ''second'')]"
  have mem: "WriteCsv SAVE_FILE two_lists_rows \<in> set (snd ?M)"
    by (simp add: run_simps two_lists_server_def two_lists_rows_def)
  have lst: "?m \<in> set (listed (listing_urls ENDPOINTS) (snd ?M))"
    by (simp add: run_simps two_lists_server_def listing_urls_def records_of_def)
  from output_ids_unique[of "Some ''k''" two_lists_server "[]"]
  obtain evs where e: "snd ?M = [] @ evs"
    and u: "\<forall>f rows. WriteCsv f rows \<in> set evs \<longrightarrow>
           distinct (map row_key rows)
           \<and> (\<forall>m\<in>set (listed (listing_urls ENDPOINTS) evs).
                 length (filter (\<lambda>r. row_key r = movie_key m) rows) = 1)"
    by blast
  from e have evs: "evs = snd ?M" by simp
  from u mem lst show ?thesis unfolding evs by blast
qed

text \<open>
  C2, evaluated on the code. The genre map knows 28; the one listed movie has the genre
  identifiers 28 and 99. \<^verbatim>\<open>genre_map.get(g, g)\<close> leaves 99 as the integer it is, and
  \<^verbatim>\<open>", ".join\<close> raises TypeError on it: the run ends by that exception and writes no
  table.
\<close>

theorem unknown_genre_crash:
  "fst (main (Some ''k'') (tmdb_example (JArr [JInt 28, JInt 99])) []) = Inl TypeError
   \<and> writes (snd (main (Some ''k'') (tmdb_example (JArr [JInt 28, JInt 99])) [])) = []"
  by (simp add: run_simps tmdb_example_def)

text \<open>
  C3. \<^verbatim>\<open>safe_get\<close> sends the request at most three times. With \<open>r1\<close>, \<open>r2\<close>, \<open>r3\<close> what the
  service answers to the first, second and third attempt (each after the events before
  it, a one-second sleep following every failed attempt): the first attempt that raises
  nothing, has status 200 and a body that decodes ends the call at once, its payload
  is the result and its GET is the last event; when all three fail the result is
  \<open>JNull\<close> (\<^verbatim>\<open>None\<close>). The function has no error result: whatever an attempt raises is
  caught, so nothing reaches the caller.
\<close>

theorem safe_get_retries:
  "(let r1 = srv tr s url ps; t1 = tr @ [Get s url ps r1, Sleep 1];
        r2 = srv t1 s url ps; t2 = t1 @ [Get s url ps r2, Sleep 1];
        r3 = srv t2 s url ps; t3 = t2 @ [Get s url ps r3, Sleep 1]
    in safe_get srv s url ps tr =
         (if succeeded r1 then (payload r1, tr @ [Get s url ps r1])
          else if succeeded r2 then (payload r2, t1 @ [Get s url ps r2])
          else if succeeded r3 then (payload r3, t2 @ [Get s url ps r3])
          else (JNull, t3)))
   \<and> length (requests (snd (safe_get srv s url ps tr))) \<le> length (requests tr) + 3"
  by (simp add: safe_get_unfold attempts_step Let_def)

theorem safe_get_retries_witness:
  "safe_get flaky_server demo_session [Lit ''u''] JNull [] =
     (JInt 7,
      [Get demo_session [Lit ''u''] JNull Raised, Sleep 1,
       Get demo_session [Lit ''u''] JNull Raised, Sleep 1,
       Get demo_session [Lit ''u''] JNull (Response 200 (Some (JInt 7)))])"
  using safe_get_retries[of flaky_server "[]" demo_session "[Lit ''u'']" JNull]
  by (simp add: Let_def flaky_server_def succeeded_def payload_def)



text \<open>
  C5, as the code has it. An empty result list does not end the pagination: when the
  fetch of a page gave an object whose \<^verbatim>\<open>results\<close> is the empty list and the page is below
  the bound, the next page is requested too.
\<close>

theorem empty_page_continues:
  "\<exists>evs. snd (get_movies_from_endpoint srv s ep pages tr) = tr @ evs
     \<and> (\<forall>p kvs. fetched (page_request s ep p) evs = Some (JObj kvs)
           \<and> map_of kvs ''results'' = Some (JArr []) \<and> 1 \<le> p \<and> p < pages
           \<longrightarrow> page_request s ep (p + 1) \<in> set (requests evs))"
proof -
  let ?G = "pages_loop srv s ep [1..pages] [] tr"
  let ?urls = "[[Lit (BASE_URL @ ep)]]"
  from pages_loop_trace[of "[1..pages]" ep ?urls srv s "[]" tr]
  obtain evs qs ns where h:
      "snd ?G = tr @ evs" "prefix qs [1..pages]"
      "length ns = length qs" "\<forall>n\<in>set ns. 1 \<le> n \<and> n \<le> 3"
      "requests evs = concat (map2 replicate ns (map (page_request s ep) qs))"
      "\<forall>p kvs i. fetched (page_request s ep p) evs = Some (JObj kvs)
           \<and> map_of kvs ''results'' = Some (JArr [])
           \<and> Suc i < length [1..pages] \<and> [1..pages] ! i = p \<longrightarrow> [1..pages] ! Suc i \<in> set qs"
    by auto
  have sreq: "set (requests evs) = page_request s ep ` set qs"
    unfolding h(5) using set_concat_replicate_eq[of ns "map (page_request s ep) qs"] h(3,4)
    by auto
  have "page_request s ep (p + 1) \<in> set (requests evs)"
    if a: "fetched (page_request s ep p) evs = Some (JObj kvs)"
          "map_of kvs ''results'' = Some (JArr [])" "1 \<le> p" "p < pages" for p kvs
  proof -
    let ?i = "nat (p - 1)"
    have i1: "Suc ?i < length [1..pages]" using a(3,4) by simp
    have i2: "[1..pages] ! ?i = p" using a(3,4) by simp
    have i3: "[1..pages] ! Suc ?i = p + 1" using a(3,4) by simp
    from h(6) a(1,2) i1 i2 have "[1..pages] ! Suc ?i \<in> set qs" by blast
    then show ?thesis using i3 sreq by simp
  qed
  then show ?thesis
    unfolding get_movies_from_endpoint_def
    by (intro exI[of _ evs]) (use h(1) in blast)
qed

theorem empty_page_continues_witness:
  "fetched (page_request demo_session ''/movie/popular'' 1)
       (snd (get_movies_from_endpoint empty_page_server demo_session ''/movie/popular'' 2 []))
     = Some (JObj [(''results'', JArr [])])
   \<and> page_request demo_session ''/movie/popular'' (1 + 1)
       \<in> set (requests
                (snd (get_movies_from_endpoint empty_page_server demo_session ''/movie/popular'' 2 [])))"
proof -
  let ?G = "get_movies_from_endpoint empty_page_server demo_session ''/movie/popular'' 2 []"
  have run: "fetched (page_request demo_session ''/movie/popular'' 1) (snd ?G)
      = Some (JObj [(''results'', JArr [])])"
    by (simp add: get_movies_from_endpoint_def upto_rec1 pages_loop_Cons classify_def safe_get_unfold
          attempts_step Let_def empty_page_server_def page_params_def succeeded_def payload_def
          fetched_def page_request_def)
  from empty_page_continues[of empty_page_server demo_session "''/movie/popular''" 2 "[]"]
  obtain evs where e: "snd ?G = [] @ evs"
    and go: "\<forall>p kvs. fetched (page_request demo_session ''/movie/popular'' p) evs = Some (JObj kvs)
           \<and> map_of kvs ''results'' = Some (JArr []) \<and> 1 \<le> p \<and> p < 2
           \<longrightarrow> page_request demo_session ''/movie/popular'' (p + 1) \<in> set (requests evs)"
    by blast
  from e have evs: "evs = snd ?G" by simp
  have "page_request demo_session ''/movie/popular'' (1 + 1) \<in> set (requests evs)"
    using go[rule_format, of 1 "[(''results'', JArr [])]"] run evs by simp
  with run evs show ?thesis by simp
qed

text \<open>
  C5, as the claim states it, fails: the service below answers every page with an empty
  result list; the first page's fetch gives that payload and the second page is
  requested all the same.
\<close>

theorem empty_page_counterexample:
  "fetched (page_request demo_session ''/movie/popular'' 1)
       (snd (get_movies_from_endpoint empty_page_server demo_session ''/movie/popular'' 2 []))
     = Some (JObj [(''results'', JArr [])])
   \<and> Get demo_session [Lit (BASE_URL @ ''/movie/popular'')] (page_params 2)
         (Response 200 (Some (JObj [(''results'', JArr [])])))
       \<in> set (snd (get_movies_from_endpoint empty_page_server demo_session ''/movie/popular'' 2 []))"
  by (simp add: get_movies_from_endpoint_def upto_rec1 pages_loop_Cons classify_def safe_get_unfold
        attempts_step Let_def empty_page_server_def page_params_def succeeded_def payload_def
        fetched_def page_request_def)

text \<open>
  C6. In every run that writes a table, with \<open>s\<close> the session of the run: the records the
  listing endpoints delivered are, in the order of the trace, the sequence
  \<open>listing_sequence s ENDPOINTS\<close>, that is endpoint by endpoint in the configured order
  and page by page within an endpoint. The rows of the table are built, one for one and
  in order, from the first-seen records of that sequence (each record dropped whose
  identifier occurred before): the row's fields, poster and genres come from that
  record, the genres resolved in the genre map the run fetched at its start, and the
  row's cast and director are the summary of the credits the run fetched for that
  record's identifier. So for a movie listed by an endpoint A and by a later endpoint B
  the one row comes from the record met under A, and rows keep the order of first
  occurrence.
\<close>

theorem rows_first_seen:
  "\<exists>evs. snd (main API_KEY srv tr) = tr @ evs
     \<and> (\<forall>f rows. WriteCsv f rows \<in> set evs \<longrightarrow>
           (\<exists>k gm. API_KEY = Some k
              \<and> fst (get_genres srv (create_session k) (tr @ [Print genres_start_line])) = Inr gm
              \<and> listed (listing_urls ENDPOINTS) evs = listing_sequence (create_session k) ENDPOINTS evs
              \<and> list_all2 (\<lambda>r m. from_record gm r m \<and> credits_from (create_session k) evs r) rows
                  (first_seen (listing_sequence (create_session k) ENDPOINTS evs))
              \<and> subseq (first_seen (listing_sequence (create_session k) ENDPOINTS evs))
                        (listing_sequence (create_session k) ENDPOINTS evs)
              \<and> (\<forall>m\<in>set (first_seen (listing_sequence (create_session k) ENDPOINTS evs)).
                    find (\<lambda>x. movie_key x = movie_key m)
                      (listing_sequence (create_session k) ENDPOINTS evs) = Some m)))"
proof -
  from main_run[of API_KEY srv tr]
  obtain evs where e: "snd (main API_KEY srv tr) = tr @ evs"
    and w: "\<forall>f rows. (f, rows) \<in> set (writes evs) \<longrightarrow>
           (\<exists>k gm. API_KEY = Some k
              \<and> fst (get_genres srv (create_session k) (tr @ [Print genres_start_line])) = Inr gm
              \<and> listed (listing_urls ENDPOINTS) evs = listing_sequence (create_session k) ENDPOINTS evs
              \<and> list_all2 (\<lambda>r m. from_record gm r m \<and> credits_from (create_session k) evs r) rows
                  (first_seen (listing_sequence (create_session k) ENDPOINTS evs)))"
    by blast
  have "\<exists>k gm. API_KEY = Some k
              \<and> fst (get_genres srv (create_session k) (tr @ [Print genres_start_line])) = Inr gm
              \<and> listed (listing_urls ENDPOINTS) evs = listing_sequence (create_session k) ENDPOINTS evs
              \<and> list_all2 (\<lambda>r m. from_record gm r m \<and> credits_from (create_session k) evs r) rows
                  (first_seen (listing_sequence (create_session k) ENDPOINTS evs))
              \<and> subseq (first_seen (listing_sequence (create_session k) ENDPOINTS evs))
                        (listing_sequence (create_session k) ENDPOINTS evs)
              \<and> (\<forall>m\<in>set (first_seen (listing_sequence (create_session k) ENDPOINTS evs)).
                    find (\<lambda>x. movie_key x = movie_key m)
                      (listing_sequence (create_session k) ENDPOINTS evs) = Some m)"
    if "WriteCsv f rows \<in> set evs" for f rows
  proof -
    from that have "(f, rows) \<in> set (writes evs)" by (simp add: writes_mem)
    with w obtain k gm where "API_KEY = Some k"
      "fst (get_genres srv (create_session k) (tr @ [Print genres_start_line])) = Inr gm"
      "listed (listing_urls ENDPOINTS) evs = listing_sequence (create_session k) ENDPOINTS evs"
      "list_all2 (\<lambda>r m. from_record gm r m \<and> credits_from (create_session k) evs r) rows
                  (first_seen (listing_sequence (create_session k) ENDPOINTS evs))"
      by blast
    then show ?thesis
      by (intro exI[of _ k] exI[of _ gm]) (simp add: subseq_first_seen find_first_seen)
  qed
  with e show ?thesis by blast
qed


theorem rows_first_seen_witness:
  "WriteCsv SAVE_FILE shared_movie_rows \<in> set (snd (main (Some ''k'') shared_movie_server []))
   \<and> listing_sequence demo_session ENDPOINTS (snd (main (Some ''k'') shared_movie_server []))
       = [JObj [(''id'', JInt 1), (''title'', JStr ''first''), (''genre_ids'', JArr [JInt 28])],
          JObj [(''id'', JInt 2)],
          JObj [(''id'', JInt 1), (''title'', JStr ''second'')], JObj [(''id'', JInt 3)]]
   \<and> list_all2 (\<lambda>r m. from_record [(KNum 28, JStr ''Action'')] r m
                        \<and> credits_from demo_session (snd (main (Some ''k'') shared_movie_server [])) r)
         shared_movie_rows
         (first_seen (listing_sequence demo_session ENDPOINTS
                        (snd (main (Some ''k'') shared_movie_server []))))
   \<and> map title shared_movie_rows = [JStr ''first'', JNull, JNull]
   \<and> map genres shared_movie_rows = [''Action'', [], []]"
proof -
  let ?M = "main (Some ''k'') shared_movie_server []"
  have mem: "WriteCsv SAVE_FILE shared_movie_rows \<in> set (snd ?M)"
    by (simp add: run_simps shared_movie_server_def shared_movie_rows_def)
  have lst: "listed (listing_urls ENDPOINTS) (snd ?M)
       = [JObj [(''id'', JInt 1), (''title'', JStr ''first''), (''genre_ids'', JArr [JInt 28])],
          JObj [(''id'', JInt 2)],
          JObj [(''id'', JInt 1), (''title'', JStr ''second'')], JObj [(''id'', JInt 3)]]"
    by (simp add: run_simps shared_movie_server_def listing_urls_def records_of_def)
  have gg: "fst (get_genres shared_movie_server (create_session ''k'') ([] @ [Print genres_start_line]))
      = Inr [(KNum 28, JStr ''Action'')]"
    by (simp add: run_simps shared_movie_server_def)
  from rows_first_seen[of "Some ''k''" shared_movie_server "[]"]
  obtain evs where e: "snd ?M = [] @ evs"
    and u: "\<forall>f rows. WriteCsv f rows \<in> set evs \<longrightarrow>
           (\<exists>k gm. Some ''k'' = Some k
              \<and> fst (get_genres shared_movie_server (create_session k) ([] @ [Print genres_start_line])) = Inr gm
              \<and> listed (listing_urls ENDPOINTS) evs = listing_sequence (create_session k) ENDPOINTS evs
              \<and> list_all2 (\<lambda>r m. from_record gm r m \<and> credits_from (create_session k) evs r) rows
                  (first_seen (listing_sequence (create_session k) ENDPOINTS evs))
              \<and> subseq (first_seen (listing_sequence (create_session k) ENDPOINTS evs))
                        (listing_sequence (create_session k) ENDPOINTS evs)
              \<and> (\<forall>m\<in>set (first_seen (listing_sequence (create_session k) ENDPOINTS evs)).
                    find (\<lambda>x. movie_key x = movie_key m)
                      (listing_sequence (create_session k) ENDPOINTS evs) = Some m))"
    by (elim exE conjE)
  from e have evs: "evs = snd ?M" by simp
  from mem have mem': "WriteCsv SAVE_FILE shared_movie_rows \<in> set evs" by (simp only: evs)
  from u[rule_format, OF mem']
  obtain k gm where k: "Some ''k'' = Some k"
    and g: "fst (get_genres shared_movie_server (create_session k) ([] @ [Print genres_start_line])) = Inr gm"
    and l: "listed (listing_urls ENDPOINTS) evs = listing_sequence (create_session k) ENDPOINTS evs"
    and r: "list_all2 (\<lambda>r m. from_record gm r m \<and> credits_from (create_session k) evs r)
              shared_movie_rows (first_seen (listing_sequence (create_session k) ENDPOINTS evs))"
    by (elim exE conjE)
  from k have k': "k = ''k''" by simp
  have ds: "create_session k = demo_session" by (simp add: k' demo_session_def)
  from g gg have gm: "gm = [(KNum 28, JStr ''Action'')]" unfolding k' by simp
  have c1: "listing_sequence demo_session ENDPOINTS (snd ?M)
       = [JObj [(''id'', JInt 1), (''title'', JStr ''first''), (''genre_ids'', JArr [JInt 28])],
          JObj [(''id'', JInt 2)],
          JObj [(''id'', JInt 1), (''title'', JStr ''second'')], JObj [(''id'', JInt 3)]]"
    using l lst unfolding ds evs by (rule trans[OF sym])
  have c2: "list_all2 (\<lambda>r m. from_record [(KNum 28, JStr ''Action'')] r m
                        \<and> credits_from demo_session (snd ?M) r)
         shared_movie_rows (first_seen (listing_sequence demo_session ENDPOINTS (snd ?M)))"
    using r unfolding ds gm evs .
  have c3: "map title shared_movie_rows = [JStr ''first'', JNull, JNull]"
    by (simp add: shared_movie_rows_def)
  have c4: "map genres shared_movie_rows = [''Action'', [], []]"
    by (simp add: shared_movie_rows_def)
  show ?thesis
    by (intro conjI mem c1 c2 c3 c4)
qed

text \<open>
  C7. With \<open>data\<close> what the fetch of the credits gave: when it is nothing (or any falsy
  value) the result is the pair of empty texts. Otherwise, for a payload whose cast is a
  list with text names in its first five entries and whose crew is a list of well-formed
  entries, the result is those names (at most five, in the order of the payload) joined
  by a comma and a blank, and the name of the first crew entry whose job is
  \<^verbatim>\<open>Director\<close>, or the empty text when there is none.
\<close>

theorem credits_summary:
  assumes "safe_get srv s (credits_url movie_id) JNull tr = (data, tr1)"
  shows "(\<not> truthy data \<longrightarrow> get_movie_credits srv s movie_id tr = (Inr ([], JStr []), tr1))
     \<and> (truthy data
         \<and> py_get data ''cast'' (JArr []) = Inr (JArr cs)
         \<and> map (\<lambda>c. py_getitem c ''name'') (take 5 cs) = map (\<lambda>n. Inr (JStr n)) names
         \<and> py_get data ''crew'' (JArr []) = Inr (JArr ws)
         \<and> (\<forall>w\<in>set ws. crew_entry w)
        \<longrightarrow> get_movie_credits srv s movie_id tr =
              (Inr (join_strs '', '' names,
                    case find is_director ws of None \<Rightarrow> JStr [] | Some w \<Rightarrow> name_of w), tr1))"
proof (intro conjI impI)
  assume "\<not> truthy data"
  then show "get_movie_credits srv s movie_id tr = (Inr ([], JStr []), tr1)"
    using assms by (simp add: get_movie_credits_def)
next
  assume a: "truthy data
         \<and> py_get data ''cast'' (JArr []) = Inr (JArr cs)
         \<and> map (\<lambda>c. py_getitem c ''name'') (take 5 cs) = map (\<lambda>n. Inr (JStr n)) names
         \<and> py_get data ''crew'' (JArr []) = Inr (JArr ws)
         \<and> (\<forall>w\<in>set ws. crew_entry w)"
  then have n: "names_of (take 5 cs) = Inr (map JStr names)"
    by (intro names_of_text) simp
  from a have d: "director_names ws = Inr (map name_of (filter is_director ws))"
    by (intro director_names_crew) simp
  have j: "py_join '', '' (map JStr names) = Inr (join_strs '', '' names)"
    by (simp add: py_join_def py_strs_text)
  have "extract_credits data =
      Inr (join_strs '', '' names,
           case map name_of (filter is_director ws) of [] \<Rightarrow> JStr [] | x # _ \<Rightarrow> x)"
    using a by (simp add: extract_credits_def n d j)
  also have "(case map name_of (filter is_director ws) of [] \<Rightarrow> JStr [] | x # _ \<Rightarrow> x)
      = (case find is_director ws of None \<Rightarrow> JStr [] | Some w \<Rightarrow> name_of w)"
    by (rule first_of_filter)
  finally show "get_movie_credits srv s movie_id tr =
              (Inr (join_strs '', '' names,
                    case find is_director ws of None \<Rightarrow> JStr [] | Some w \<Rightarrow> name_of w), tr1)"
    using assms a by (simp add: get_movie_credits_def)
qed


theorem credits_summary_witness:
  "get_movie_credits credits_server demo_session (JInt 1) [] =
     (Inr (''A, B, C, D, E'', JStr ''X''),
      [Get demo_session (credits_url (JInt 1)) JNull (Response 200 (Some credits_payload))])"
proof -
  let ?cs = "[JObj [(''name'', JStr ''A'')], JObj [(''name'', JStr ''B'')],
              JObj [(''name'', JStr ''C'')], JObj [(''name'', JStr ''D'')],
              JObj [(''name'', JStr ''E'')], JObj [(''name'', JStr ''F'')],
              JObj [(''name'', JStr ''G'')]]"
  let ?ws = "[JObj [(''job'', JStr ''Producer''), (''name'', JStr ''P'')],
              JObj [(''job'', JStr ''Director''), (''name'', JStr ''X'')],
              JObj [(''job'', JStr ''Director''), (''name'', JStr ''Y'')]]"
  let ?tr = "[Get demo_session (credits_url (JInt 1)) JNull (Response 200 (Some credits_payload))]"
  have sg: "safe_get credits_server demo_session (credits_url (JInt 1)) JNull [] = (credits_payload, ?tr)"
    by (simp add: safe_get_unfold attempts_step Let_def credits_server_def succeeded_def payload_def)
  have hyp: "truthy credits_payload
         \<and> py_get credits_payload ''cast'' (JArr []) = Inr (JArr ?cs)
         \<and> map (\<lambda>c. py_getitem c ''name'') (take 5 ?cs)
             = map (\<lambda>n. Inr (JStr n)) [''A'', ''B'', ''C'', ''D'', ''E'']
         \<and> py_get credits_payload ''crew'' (JArr []) = Inr (JArr ?ws)
         \<and> (\<forall>w\<in>set ?ws. crew_entry w)"
    by (simp add: credits_payload_def crew_entry_def)
  from credits_summary[OF sg, of ?cs "[''A'', ''B'', ''C'', ''D'', ''E'']" ?ws] hyp
  have "get_movie_credits credits_server demo_session (JInt 1) [] =
              (Inr (join_strs '', '' [''A'', ''B'', ''C'', ''D'', ''E''],
                    case find is_director ?ws of None \<Rightarrow> JStr [] | Some w \<Rightarrow> name_of w), ?tr)"
    by blast
  then show ?thesis by (simp add: is_director_def name_of_def)
qed

text \<open>
  C8. With the credential absent, empty or equal to the placeholder, \<^verbatim>\<open>main\<close> prints the
  error line and returns: that line is the only event, so no request is sent and no
  table is written.
\<close>

theorem main_without_key:
  "API_KEY = None \<or> API_KEY = Some [] \<or> API_KEY = Some ''YOUR_API_KEY_HERE'' \<Longrightarrow>
     main API_KEY srv tr = (Inr (), tr @ [Print key_error_line])
     \<and> requests (snd (main API_KEY srv tr)) = requests tr
     \<and> writes (snd (main API_KEY srv tr)) = writes tr"
  by (auto simp: main_def)

theorem main_without_key_witness:
  "main (Some ''YOUR_API_KEY_HERE'') one_page_server [] = (Inr (), [Print key_error_line])
   \<and> requests (snd (main (Some ''YOUR_API_KEY_HERE'') one_page_server [])) = []
   \<and> writes (snd (main (Some ''YOUR_API_KEY_HERE'') one_page_server [])) = []"
  using main_without_key[of "Some ''YOUR_API_KEY_HERE''" one_page_server "[]"] by simp

text \<open>
  C9. Whenever the assembly of a row for a record succeeds, the row's \<^verbatim>\<open>poster_url\<close> is
  the image base followed by the record's poster path when the record has one (a
  non-empty text), and the empty text when the record has no poster path (no such key,
  \<^verbatim>\<open>null\<close>, or an empty text, which the code's test \<^verbatim>\<open>if m.get("poster_path")\<close> takes
  for none).
\<close>

theorem poster_url_field:
  "build_row srv s gm (JObj kvs) tr = (Inr r, tr') \<Longrightarrow>
     (\<forall>p. map_of kvs ''poster_path'' = Some (JStr p) \<and> p \<noteq> [] \<longrightarrow> poster_url r = IMAGE_BASE @ p)
     \<and> (map_of kvs ''poster_path'' = None \<or> map_of kvs ''poster_path'' = Some JNull
          \<or> map_of kvs ''poster_path'' = Some (JStr [])
          \<longrightarrow> poster_url r = [])"
  by (drule build_row_poster) (auto simp: poster_of_def)


theorem poster_url_field_witness:
  "fst (build_row down_server demo_session []
          (JObj [(''id'', JInt 1), (''poster_path'', JStr ''/a.jpg'')]) [])
     = Inr \<lparr>row_id = JInt 1, title = JNull, overview = JNull, release_date = JNull,
            vote_average = JNull, genres = [], top_cast = [], director = JStr [],
            poster_url = ''https://image.tmdb.org/t/p/w500/a.jpg''\<rparr>
   \<and> fst (build_row down_server demo_session [] (JObj [(''id'', JInt 2)]) [])
     = Inr \<lparr>row_id = JInt 2, title = JNull, overview = JNull, release_date = JNull,
            vote_average = JNull, genres = [], top_cast = [], director = JStr [],
            poster_url = []\<rparr>
   \<and> poster_url \<lparr>row_id = JInt 1, title = JNull, overview = JNull, release_date = JNull,
            vote_average = JNull, genres = [], top_cast = [], director = JStr [],
            poster_url = ''https://image.tmdb.org/t/p/w500/a.jpg''\<rparr> = IMAGE_BASE @ ''/a.jpg''"
proof -
  let ?m1 = "JObj [(''id'', JInt 1), (''poster_path'', JStr ''/a.jpg'')]"
  let ?m2 = "JObj [(''id'', JInt 2)]"
  let ?B1 = "build_row down_server demo_session [] ?m1 []"
  let ?B2 = "build_row down_server demo_session [] ?m2 []"
  let ?r1 = "\<lparr>row_id = JInt 1, title = JNull, overview = JNull, release_date = JNull,
            vote_average = JNull, genres = [], top_cast = [], director = JStr [],
            poster_url = ''https://image.tmdb.org/t/p/w500/a.jpg''\<rparr>"
  let ?r2 = "\<lparr>row_id = JInt 2, title = JNull, overview = JNull, release_date = JNull,
            vote_average = JNull, genres = [], top_cast = [], director = JStr [],
            poster_url = []\<rparr>"
  have f1: "fst ?B1 = Inr ?r1"
    by (simp add: run_simps down_server_def)
  have f2: "fst ?B2 = Inr ?r2"
    by (simp add: run_simps down_server_def)
  have b1: "?B1 = (Inr ?r1, snd ?B1)"
    using f1 by (metis prod.collapse)
  from poster_url_field[OF b1]
  have "poster_url ?r1 = IMAGE_BASE @ ''/a.jpg''" by simp
  with f1 f2 show ?thesis by blast
qed


text \<open>
  C10. The deduplication indexes \<^verbatim>\<open>m["id"]\<close>: when every listed record is an object with
  a (scalar) \<^verbatim>\<open>id\<close>, it ends without an exception; a record without the key, after such
  records, ends it by KeyError, whatever follows; the defaulting access of the row
  assembly gives \<open>JNull\<close> for the same record.
\<close>

theorem dedup_indexes_id:
  "((\<forall>m\<in>set ms. has_id m) \<longrightarrow> (\<exists>r. dedup_movies ms all_movies seen = Inr r))
   \<and> ((\<forall>m\<in>set ms. has_id m) \<and> ''id'' \<notin> fst ` set kvs
        \<longrightarrow> dedup_movies (ms @ JObj kvs # rest) all_movies seen = Inl KeyError)
   \<and> (''id'' \<notin> fst ` set kvs \<longrightarrow> py_get (JObj kvs) ''id'' JNull = Inr JNull)"
proof (intro conjI impI)
  assume "\<forall>m\<in>set ms. has_id m"
  then show "\<exists>r. dedup_movies ms all_movies seen = Inr r" by (rule dedup_movies_total)
next
  assume a: "(\<forall>m\<in>set ms. has_id m) \<and> ''id'' \<notin> fst ` set kvs"
  then obtain r where r: "dedup_movies ms all_movies seen = Inr r"
    using dedup_movies_total by blast
  have "movie_key (JObj kvs) = Inl KeyError"
    using a by (simp add: movie_key_def map_of_None_key)
  then show "dedup_movies (ms @ JObj kvs # rest) all_movies seen = Inl KeyError"
    by (simp add: dedup_movies_append r dedup_movies_Cons split: prod.splits)
next
  assume "''id'' \<notin> fst ` set kvs"
  then show "py_get (JObj kvs) ''id'' JNull = Inr JNull"
    by (simp add: map_of_None_key)
qed

theorem dedup_indexes_id_witness:
  "has_id (JObj [(''id'', JInt 1)]) \<and> has_id (JObj [(''id'', JInt 2)])
   \<and> dedup_movies [JObj [(''id'', JInt 1)], JObj [(''id'', JInt 2)], JObj [(''id'', JInt 1)]] [] {}
       = Inr ([JObj [(''id'', JInt 1)], JObj [(''id'', JInt 2)]], {KNum 1, KNum 2})
   \<and> dedup_movies ([JObj [(''id'', JInt 1)]] @ JObj [(''title'', JStr ''X'')] # [JObj [(''id'', JInt 2)]]) [] {}
       = Inl KeyError
   \<and> py_get (JObj [(''title'', JStr ''X'')]) ''id'' JNull = Inr JNull"
  using dedup_indexes_id[of "[JObj [(''id'', JInt 1)]]" "[]" "{}" "[(''title'', JStr ''X'')]"
          "[JObj [(''id'', JInt 2)]]"]
  by (simp add: has_id_def dedup_movies_Cons movie_key_def insert_commute)

end
